theory Spec2Isabelle
  imports Main
begin

section \<open>Raw memory: blocks of slots\<close>

text \<open>
  The container of \<^verbatim>\<open>vector.h\<close> constructs and destroys objects by hand inside raw
  buffers. A buffer is a block of slots; a slot is \<open>None\<close> while it is uninitialised
  memory and \<open>Some x\<close> while it holds the live object \<open>x\<close>. A pointer \<^verbatim>\<open>T*\<close> is a
  block number with a slot offset; block \<open>0\<close> is the null block, so \<^verbatim>\<open>nullptr\<close> is
  \<open>(0, 0)\<close>. The heap maps the numbers of the blocks handed out by \<^verbatim>\<open>operator new\<close>
  and not yet released to their slots.

  \<^verbatim>\<open>size_t\<close> is a natural number below \<open>2 ^ 64\<close>; where the source adds or multiplies
  sizes the wrap-around is written out. \<^verbatim>\<open>operator new\<close> grants a request of at most
  \<open>limit\<close> bytes and throws \<^verbatim>\<open>std::bad_alloc\<close> for a larger one.

  Errors are values: an exception thrown by the allocator, an exception thrown by an
  operation of the element type, a violated precondition (a failed \<^verbatim>\<open>assert\<close>, or
  an access the language leaves undefined: a slot outside its block, a released block,
  a read or a destruction of an uninitialised slot), and a member function whose body
  does not compile for the element type.
\<close>

datatype error = AllocationFailure | ElementConstructionFailure | PreconditionViolation | IllFormed

type_synonym ptr = "nat \<times> nat"

definition nullptr :: ptr where
  "nullptr = (0, 0)"

definition ptr_add :: "ptr \<Rightarrow> nat \<Rightarrow> ptr" where
  "ptr_add p n = (fst p, snd p + n)"

text \<open>\<^verbatim>\<open>p - n\<close>; stepping in front of the block is a violated precondition.\<close>

definition ptr_sub :: "ptr \<Rightarrow> nat \<Rightarrow> error + ptr" where
  "ptr_sub p n = (if n \<le> snd p then Inr (fst p, snd p - n) else Inl PreconditionViolation)"

text \<open>
  \<^verbatim>\<open>std::distance(p, q)\<close>. Every distance the source takes is used as a count or as an
  offset from the start of a buffer, so the two iterators have to point into the same
  block with \<open>p\<close> not behind \<open>q\<close>; anything else is a violated precondition.
\<close>

definition distance :: "ptr \<Rightarrow> ptr \<Rightarrow> error + nat" where
  "distance p q =
     (if fst p = fst q \<and> snd p \<le> snd q then Inr (snd q - snd p)
      else Inl PreconditionViolation)"

definition size_max :: nat where
  "size_max = 2 ^ 64"

text \<open>\<^verbatim>\<open>a + b\<close>, \<^verbatim>\<open>a * b\<close> and \<^verbatim>\<open>a - b\<close> on \<^verbatim>\<open>size_t\<close>.\<close>

definition size_add :: "nat \<Rightarrow> nat \<Rightarrow> nat" where
  "size_add a b = (a + b) mod size_max"

definition size_mul :: "nat \<Rightarrow> nat \<Rightarrow> nat" where
  "size_mul a b = (a * b) mod size_max"

definition size_sub :: "nat \<Rightarrow> nat \<Rightarrow> nat" where
  "size_sub a b = (if b \<le> a then a - b else (a + size_max - b) mod size_max)"

record 'a heap =
  blocks :: "nat \<Rightarrow> 'a option list option"
  allocated :: nat
  limit :: nat

text \<open>Only a block number that the allocator has handed out names a block.\<close>

definition block_of :: "'a heap \<Rightarrow> nat \<Rightarrow> 'a option list option" where
  "block_of h b = (if 0 < b \<and> b \<le> allocated h then blocks h b else None)"

definition set_block :: "nat \<Rightarrow> 'a option list \<Rightarrow> 'a heap \<Rightarrow> 'a heap" where
  "set_block b ss h = h\<lparr>blocks := (blocks h)(b \<mapsto> ss)\<rparr>"

definition read_slot :: "'a heap \<Rightarrow> ptr \<Rightarrow> error + 'a" where
  "read_slot h p =
     (case block_of h (fst p) of
        None \<Rightarrow> Inl PreconditionViolation
      | Some ss \<Rightarrow>
          (if snd p < length ss
           then (case ss ! snd p of None \<Rightarrow> Inl PreconditionViolation | Some x \<Rightarrow> Inr x)
           else Inl PreconditionViolation))"

definition write_slot :: "ptr \<Rightarrow> 'a option \<Rightarrow> 'a heap \<Rightarrow> error + 'a heap" where
  "write_slot p s h =
     (case block_of h (fst p) of
        None \<Rightarrow> Inl PreconditionViolation
      | Some ss \<Rightarrow>
          (if snd p < length ss then Inr (set_block (fst p) (ss[snd p := s]) h)
           else Inl PreconditionViolation))"

section \<open>RawMemory\<close>

text \<open>
  The members \<^verbatim>\<open>buffer_\<close> and \<^verbatim>\<open>capacity_\<close>; a name cannot end in an underscore here,
  so the members carry the suffix \<open>m\<close>.
\<close>

record RawMemory =
  buffer_m :: ptr
  capacity_m :: nat

text \<open>\<^verbatim>\<open>RawMemory() = default\<close>: the member initialisers \<^verbatim>\<open>nullptr\<close> and \<open>0\<close>.\<close>

definition RawMemory_default :: RawMemory where
  "RawMemory_default = \<lparr>buffer_m = nullptr, capacity_m = 0\<rparr>"

text \<open>
  \<^verbatim>\<open>Allocate(n)\<close>: \<^verbatim>\<open>n != 0 ? operator new(n * sizeof(T)) : nullptr\<close>. \<open>sizeof_T\<close> is
  \<^verbatim>\<open>sizeof(T)\<close>. The product is a product of \<^verbatim>\<open>size_t\<close>: the request is for
  \<open>n * sizeof_T mod 2 ^ 64\<close> bytes, and the block that \<^verbatim>\<open>operator new\<close> returns has room
  for as many objects as fit into that many bytes, which are fewer than \<open>n\<close> when the
  product wraps around. A request for \<open>0\<close> bytes returns a block without slots. The new
  block gets the next block number; all its slots are uninitialised.
\<close>

definition with_new_block :: "nat \<Rightarrow> 'a heap \<Rightarrow> 'a heap" where
  "with_new_block n h =
     h\<lparr>blocks := (blocks h)(Suc (allocated h) \<mapsto> replicate n None),
       allocated := Suc (allocated h)\<rparr>"

definition operator_new :: "nat \<Rightarrow> nat \<Rightarrow> 'a heap \<Rightarrow> (error + ptr) \<times> 'a heap" where
  "operator_new sizeof_T bytes h =
     (if limit h < bytes then (Inl AllocationFailure, h)
      else (Inr (Suc (allocated h), 0), with_new_block (bytes div sizeof_T) h))"

definition Allocate :: "nat \<Rightarrow> nat \<Rightarrow> 'a heap \<Rightarrow> (error + ptr) \<times> 'a heap" where
  "Allocate sizeof_T n h =
     (if n \<noteq> 0 then operator_new sizeof_T (size_mul n sizeof_T) h
      else (Inr nullptr, h))"

text \<open>\<^verbatim>\<open>Deallocate(buf)\<close>: \<^verbatim>\<open>operator delete(buf)\<close>, which does nothing for \<^verbatim>\<open>nullptr\<close>.\<close>

definition Deallocate :: "ptr \<Rightarrow> 'a heap \<Rightarrow> 'a heap" where
  "Deallocate buf h = (if buf = nullptr then h else h\<lparr>blocks := (blocks h)(fst buf := None)\<rparr>)"

definition RawMemory_ctor :: "nat \<Rightarrow> nat \<Rightarrow> 'a heap \<Rightarrow> (error + RawMemory) \<times> 'a heap" where
  "RawMemory_ctor sizeof_T capacity h =
     (case Allocate sizeof_T capacity h of
        (Inl e, h1) \<Rightarrow> (Inl e, h1)
      | (Inr p, h1) \<Rightarrow> (Inr \<lparr>buffer_m = p, capacity_m = capacity\<rparr>, h1))"

definition RawMemory_dtor :: "RawMemory \<Rightarrow> 'a heap \<Rightarrow> 'a heap" where
  "RawMemory_dtor m h = Deallocate (buffer_m m) h"

text \<open>
  \<^verbatim>\<open>Swap(other)\<close> exchanges the two members of the two objects. The first component of
  the result is \<^verbatim>\<open>*this\<close> afterwards, the second is \<^verbatim>\<open>other\<close> afterwards.
\<close>

definition RawMemory_Swap :: "RawMemory \<Rightarrow> RawMemory \<Rightarrow> RawMemory \<times> RawMemory" where
  "RawMemory_Swap this other =
     (this\<lparr>buffer_m := buffer_m other, capacity_m := capacity_m other\<rparr>,
      other\<lparr>buffer_m := buffer_m this, capacity_m := capacity_m this\<rparr>)"

text \<open>
  \<^verbatim>\<open>RawMemory(RawMemory&& other)\<close>: the new object starts from its member initialisers
  and swaps with \<open>other\<close>. The result is the new object and \<open>other\<close> afterwards.
\<close>

definition RawMemory_move_ctor :: "RawMemory \<Rightarrow> RawMemory \<times> RawMemory" where
  "RawMemory_move_ctor other = RawMemory_Swap RawMemory_default other"

text \<open>\<^verbatim>\<open>operator=(RawMemory&& rhs)\<close>: \<^verbatim>\<open>Swap(rhs); return *this\<close>.\<close>

definition RawMemory_move_assign :: "RawMemory \<Rightarrow> RawMemory \<Rightarrow> RawMemory \<times> RawMemory" where
  "RawMemory_move_assign this rhs = RawMemory_Swap this rhs"

text \<open>\<^verbatim>\<open>operator+(offset)\<close> with its \<^verbatim>\<open>assert(offset <= capacity_)\<close>.\<close>

definition RawMemory_plus :: "RawMemory \<Rightarrow> nat \<Rightarrow> error + ptr" where
  "RawMemory_plus m offset =
     (if offset \<le> capacity_m m then Inr (ptr_add (buffer_m m) offset)
      else Inl PreconditionViolation)"

text \<open>\<^verbatim>\<open>operator[](index)\<close> with its \<^verbatim>\<open>assert(index < capacity_)\<close>: the slot's address.\<close>

definition RawMemory_index :: "RawMemory \<Rightarrow> nat \<Rightarrow> error + ptr" where
  "RawMemory_index m index =
     (if index < capacity_m m then Inr (ptr_add (buffer_m m) index)
      else Inl PreconditionViolation)"

definition GetAddress :: "RawMemory \<Rightarrow> ptr" where
  "GetAddress m = buffer_m m"

definition RawMemory_Capacity :: "RawMemory \<Rightarrow> nat" where
  "RawMemory_Capacity m = capacity_m m"

section \<open>The element type\<close>

text \<open>
  The template parameter \<^verbatim>\<open>T\<close> is a parameter of the model: \<^verbatim>\<open>sizeof(T)\<close>, the two
  type traits the source asks for, and the outcome of each operation of \<^verbatim>\<open>T\<close> that the
  container calls.
  \<open>None\<close> is a thrown exception; a throwing operation leaves its operands as they were.
  A move returns the new (or assigned) object together with the state it leaves its
  source in.
\<close>

record 'a elem_type =
  sizeof :: nat
  is_nothrow_move_constructible :: bool
  is_copy_constructible :: bool
  value_init :: "'a option"
  copy_ctor :: "'a \<Rightarrow> 'a option"
  move_ctor :: "'a \<Rightarrow> ('a \<times> 'a) option"
  copy_assign :: "'a \<Rightarrow> 'a \<Rightarrow> 'a option"
  move_assign :: "'a \<Rightarrow> 'a \<Rightarrow> ('a \<times> 'a) option"

text \<open>
  \<^verbatim>\<open>new (buf) T(...)\<close> as the algorithms of the standard library call it; \<open>made\<close> is the
  outcome of the constructor.
\<close>

definition placement_new :: "ptr \<Rightarrow> 'a option \<Rightarrow> 'a heap \<Rightarrow> error + 'a heap" where
  "placement_new buf made h =
     (case made of
        None \<Rightarrow> Inl ElementConstructionFailure
      | Some x \<Rightarrow> write_slot buf (Some x) h)"

text \<open>\<^verbatim>\<open>Destroy(buf)\<close>: \<^verbatim>\<open>buf->~T()\<close>, on a live object.\<close>

definition Destroy :: "ptr \<Rightarrow> 'a heap \<Rightarrow> error + 'a heap" where
  "Destroy buf h =
     (case read_slot h buf of
        Inl e \<Rightarrow> Inl e
      | Inr x \<Rightarrow> write_slot buf None h)"

text \<open>\<^verbatim>\<open>new (dst) T(*src)\<close>\<close>

definition copy_construct_at :: "'a elem_type \<Rightarrow> ptr \<Rightarrow> ptr \<Rightarrow> 'a heap \<Rightarrow> error + 'a heap" where
  "copy_construct_at T src dst h =
     (case read_slot h src of
        Inl e \<Rightarrow> Inl e
      | Inr x \<Rightarrow> placement_new dst (copy_ctor T x) h)"

text \<open>\<^verbatim>\<open>new (dst) T(std::move(*src))\<close>\<close>

definition move_construct_at :: "'a elem_type \<Rightarrow> ptr \<Rightarrow> ptr \<Rightarrow> 'a heap \<Rightarrow> error + 'a heap" where
  "move_construct_at T src dst h =
     (case read_slot h src of
        Inl e \<Rightarrow> Inl e
      | Inr x \<Rightarrow>
          (case move_ctor T x of
             None \<Rightarrow> Inl ElementConstructionFailure
           | Some (y, x') \<Rightarrow>
               (case write_slot src (Some x') h of
                  Inl e \<Rightarrow> Inl e
                | Inr h1 \<Rightarrow> write_slot dst (Some y) h1)))"

text \<open>\<^verbatim>\<open>*dst = *src\<close>\<close>

definition copy_assign_at :: "'a elem_type \<Rightarrow> ptr \<Rightarrow> ptr \<Rightarrow> 'a heap \<Rightarrow> error + 'a heap" where
  "copy_assign_at T src dst h =
     (case read_slot h src of
        Inl e \<Rightarrow> Inl e
      | Inr x \<Rightarrow>
          (case read_slot h dst of
             Inl e \<Rightarrow> Inl e
           | Inr d \<Rightarrow>
               (case copy_assign T d x of
                  None \<Rightarrow> Inl ElementConstructionFailure
                | Some d' \<Rightarrow> write_slot dst (Some d') h)))"

text \<open>\<^verbatim>\<open>*dst = std::move(*src)\<close>\<close>

definition move_assign_at :: "'a elem_type \<Rightarrow> ptr \<Rightarrow> ptr \<Rightarrow> 'a heap \<Rightarrow> error + 'a heap" where
  "move_assign_at T src dst h =
     (case read_slot h src of
        Inl e \<Rightarrow> Inl e
      | Inr x \<Rightarrow>
          (case read_slot h dst of
             Inl e \<Rightarrow> Inl e
           | Inr d \<Rightarrow>
               (case move_assign T d x of
                  None \<Rightarrow> Inl ElementConstructionFailure
                | Some (d', x') \<Rightarrow>
                    (case write_slot src (Some x') h of
                       Inl e \<Rightarrow> Inl e
                     | Inr h1 \<Rightarrow> write_slot dst (Some d') h1))))"

text \<open>\<^verbatim>\<open>*dst = std::move(buff)\<close> for a local object \<open>buff\<close>\<close>

definition move_assign_from :: "'a elem_type \<Rightarrow> 'a \<Rightarrow> ptr \<Rightarrow> 'a heap \<Rightarrow> error + 'a heap" where
  "move_assign_from T buff dst h =
     (case read_slot h dst of
        Inl e \<Rightarrow> Inl e
      | Inr d \<Rightarrow>
          (case move_assign T d buff of
             None \<Rightarrow> Inl ElementConstructionFailure
           | Some (d', b') \<Rightarrow> write_slot dst (Some d') h))"

text \<open>
  The object that a parameter \<^verbatim>\<open>const T&\<close> or \<^verbatim>\<open>T&&\<close> is bound to: the object in a slot
  of a block, which may be a slot of the container that is called, or an object outside
  the blocks (a local variable, a temporary), given by its value. The state in which a
  move leaves an object outside the blocks is not recorded.
\<close>

datatype 'a object = Outside 'a | Slot ptr

fun read_object :: "'a heap \<Rightarrow> 'a object \<Rightarrow> error + 'a" where
  "read_object h (Outside x) = Inr x"
| "read_object h (Slot p) = read_slot h p"

fun write_object :: "'a object \<Rightarrow> 'a \<Rightarrow> 'a heap \<Rightarrow> error + 'a heap" where
  "write_object (Outside x) x' h = Inr h"
| "write_object (Slot p) x' h = write_slot p (Some x') h"

text \<open>
  The argument pack \<^verbatim>\<open>Args&&... args\<close> of \<^verbatim>\<open>Emplace\<close>, which \<^verbatim>\<open>std::forward\<close> hands to
  the constructor of \<^verbatim>\<open>T\<close> at the place where the element is built: an lvalue of type
  \<^verbatim>\<open>T\<close> (the copy constructor reads the object then), an rvalue of type \<^verbatim>\<open>T\<close> (the
  move constructor reads the object then and leaves it in its moved-from state), or
  arguments that refer to no object of type \<^verbatim>\<open>T\<close>, for which \<open>Built made\<close> gives the
  outcome \<open>made\<close> of \<^verbatim>\<open>T(args...)\<close>.
\<close>

datatype 'a args = Built "'a option" | Lvalue "'a object" | Rvalue "'a object"

text \<open>\<^verbatim>\<open>T(std::forward<Args>(args)...)\<close>: the new object and the heap as the call leaves it.\<close>

fun construct :: "'a elem_type \<Rightarrow> 'a args \<Rightarrow> 'a heap \<Rightarrow> error + 'a \<times> 'a heap" where
  "construct T (Built made) h =
     (case made of
        None \<Rightarrow> Inl ElementConstructionFailure
      | Some x \<Rightarrow> Inr (x, h))"
| "construct T (Lvalue ob) h =
     (case read_object h ob of
        Inl e \<Rightarrow> Inl e
      | Inr x \<Rightarrow>
          (case copy_ctor T x of
             None \<Rightarrow> Inl ElementConstructionFailure
           | Some y \<Rightarrow> Inr (y, h)))"
| "construct T (Rvalue ob) h =
     (case read_object h ob of
        Inl e \<Rightarrow> Inl e
      | Inr x \<Rightarrow>
          (case move_ctor T x of
             None \<Rightarrow> Inl ElementConstructionFailure
           | Some (y, x') \<Rightarrow>
               (case write_object ob x' h of
                  Inl e \<Rightarrow> Inl e
                | Inr h1 \<Rightarrow> Inr (y, h1))))"

text \<open>\<^verbatim>\<open>ConstructElement(buf, elem...)\<close>: \<^verbatim>\<open>new (buf) T(std::forward<T_forward>(elem)...)\<close>\<close>

definition ConstructElement :: "'a elem_type \<Rightarrow> ptr \<Rightarrow> 'a args \<Rightarrow> 'a heap \<Rightarrow> error + 'a heap" where
  "ConstructElement T buf elem h =
     (case construct T elem h of
        Inl e \<Rightarrow> Inl e
      | Inr (x, h1) \<Rightarrow> write_slot buf (Some x) h1)"

section \<open>The algorithms of the standard library\<close>

text \<open>
  Each algorithm walks its range from the front, one slot per step. The functions
  that can throw return the heap as the exception leaves it.
\<close>

primrec destroy_n :: "ptr \<Rightarrow> nat \<Rightarrow> 'a heap \<Rightarrow> error + 'a heap" where
  "destroy_n first 0 h = Inr h"
| "destroy_n first (Suc n) h =
     (case Destroy first h of
        Inl e \<Rightarrow> Inl e
      | Inr h1 \<Rightarrow> destroy_n (ptr_add first 1) n h1)"

text \<open>
  The three \<^verbatim>\<open>std::uninitialized_...\<close> algorithms destroy the objects they have
  already constructed when a construction throws, then rethrow: here each step that
  sees the rest of the range fail destroys its own object on the way out.
\<close>

primrec uninitialized_value_construct_n ::
  "'a elem_type \<Rightarrow> ptr \<Rightarrow> nat \<Rightarrow> 'a heap \<Rightarrow> error option \<times> 'a heap" where
  "uninitialized_value_construct_n T first 0 h = (None, h)"
| "uninitialized_value_construct_n T first (Suc n) h =
     (case placement_new first (value_init T) h of
        Inl e \<Rightarrow> (Some e, h)
      | Inr h1 \<Rightarrow>
          (case uninitialized_value_construct_n T (ptr_add first 1) n h1 of
             (None, h2) \<Rightarrow> (None, h2)
           | (Some e, h2) \<Rightarrow>
               (case Destroy first h2 of
                  Inl e' \<Rightarrow> (Some e', h2)
                | Inr h3 \<Rightarrow> (Some e, h3))))"

primrec uninitialized_copy_n ::
  "'a elem_type \<Rightarrow> ptr \<Rightarrow> nat \<Rightarrow> ptr \<Rightarrow> 'a heap \<Rightarrow> error option \<times> 'a heap" where
  "uninitialized_copy_n T first 0 d_first h = (None, h)"
| "uninitialized_copy_n T first (Suc n) d_first h =
     (case copy_construct_at T first d_first h of
        Inl e \<Rightarrow> (Some e, h)
      | Inr h1 \<Rightarrow>
          (case uninitialized_copy_n T (ptr_add first 1) n (ptr_add d_first 1) h1 of
             (None, h2) \<Rightarrow> (None, h2)
           | (Some e, h2) \<Rightarrow>
               (case Destroy d_first h2 of
                  Inl e' \<Rightarrow> (Some e', h2)
                | Inr h3 \<Rightarrow> (Some e, h3))))"

primrec uninitialized_move_n ::
  "'a elem_type \<Rightarrow> ptr \<Rightarrow> nat \<Rightarrow> ptr \<Rightarrow> 'a heap \<Rightarrow> error option \<times> 'a heap" where
  "uninitialized_move_n T first 0 d_first h = (None, h)"
| "uninitialized_move_n T first (Suc n) d_first h =
     (case move_construct_at T first d_first h of
        Inl e \<Rightarrow> (Some e, h)
      | Inr h1 \<Rightarrow>
          (case uninitialized_move_n T (ptr_add first 1) n (ptr_add d_first 1) h1 of
             (None, h2) \<Rightarrow> (None, h2)
           | (Some e, h2) \<Rightarrow>
               (case Destroy d_first h2 of
                  Inl e' \<Rightarrow> (Some e', h2)
                | Inr h3 \<Rightarrow> (Some e, h3))))"

text \<open>\<^verbatim>\<open>std::copy_n(first, count, result)\<close>: copy assignment, front to back.\<close>

primrec copy_n :: "'a elem_type \<Rightarrow> ptr \<Rightarrow> nat \<Rightarrow> ptr \<Rightarrow> 'a heap \<Rightarrow> error option \<times> 'a heap" where
  "copy_n T first 0 result h = (None, h)"
| "copy_n T first (Suc n) result h =
     (case copy_assign_at T first result h of
        Inl e \<Rightarrow> (Some e, h)
      | Inr h1 \<Rightarrow> copy_n T (ptr_add first 1) n (ptr_add result 1) h1)"

text \<open>\<^verbatim>\<open>std::move(first, last, d_first)\<close>: move assignment, front to back.\<close>

primrec move_n :: "'a elem_type \<Rightarrow> ptr \<Rightarrow> nat \<Rightarrow> ptr \<Rightarrow> 'a heap \<Rightarrow> error option \<times> 'a heap" where
  "move_n T first 0 d_first h = (None, h)"
| "move_n T first (Suc n) d_first h =
     (case move_assign_at T first d_first h of
        Inl e \<Rightarrow> (Some e, h)
      | Inr h1 \<Rightarrow> move_n T (ptr_add first 1) n (ptr_add d_first 1) h1)"

definition std_move :: "'a elem_type \<Rightarrow> ptr \<Rightarrow> ptr \<Rightarrow> ptr \<Rightarrow> 'a heap \<Rightarrow> error option \<times> 'a heap" where
  "std_move T first last_it d_first h =
     (case distance first last_it of
        Inl e \<Rightarrow> (Some e, h)
      | Inr n \<Rightarrow> move_n T first n d_first h)"

text \<open>
  \<^verbatim>\<open>std::move_backward(first, last, d_last)\<close>: \<^verbatim>\<open>*(--d_last) = std::move(*(--last))\<close>
  until \<^verbatim>\<open>last\<close> reaches \<^verbatim>\<open>first\<close>; with \<open>n\<close> slots left, \<^verbatim>\<open>--last\<close> is
  \<^verbatim>\<open>first + (n - 1)\<close>.
\<close>

primrec move_backward_n ::
  "'a elem_type \<Rightarrow> ptr \<Rightarrow> nat \<Rightarrow> ptr \<Rightarrow> 'a heap \<Rightarrow> error option \<times> 'a heap" where
  "move_backward_n T first 0 d_last h = (None, h)"
| "move_backward_n T first (Suc n) d_last h =
     (case ptr_sub d_last 1 of
        Inl e \<Rightarrow> (Some e, h)
      | Inr d \<Rightarrow>
          (case move_assign_at T (ptr_add first n) d h of
             Inl e \<Rightarrow> (Some e, h)
           | Inr h1 \<Rightarrow> move_backward_n T first n d h1))"

definition move_backward ::
  "'a elem_type \<Rightarrow> ptr \<Rightarrow> ptr \<Rightarrow> ptr \<Rightarrow> 'a heap \<Rightarrow> error option \<times> 'a heap" where
  "move_backward T first last_it d_last h =
     (case distance first last_it of
        Inl e \<Rightarrow> (Some e, h)
      | Inr n \<Rightarrow> move_backward_n T first n d_last h)"

section \<open>Vector\<close>

text \<open>
  The members \<^verbatim>\<open>data_\<close> and \<^verbatim>\<open>size_\<close>. A member function takes the object and the
  heap and returns them as it leaves them, in front of them the error it threw (or
  \<open>None\<close>) or, for a function with a result, the error or the result.
\<close>

record Vector =
  data_m :: RawMemory
  size_m :: nat

definition Vector_default :: Vector where
  "Vector_default = \<lparr>data_m = RawMemory_default, size_m = 0\<rparr>"

definition Size :: "Vector \<Rightarrow> nat" where
  "Size v = size_m v"

definition Capacity :: "Vector \<Rightarrow> nat" where
  "Capacity v = RawMemory_Capacity (data_m v)"

text \<open>\<^verbatim>\<open>begin()\<close>, \<^verbatim>\<open>cbegin()\<close> and \<^verbatim>\<open>end()\<close>, \<^verbatim>\<open>cend()\<close>\<close>

definition begin_it :: "Vector \<Rightarrow> ptr" where
  "begin_it v = GetAddress (data_m v)"

definition end_it :: "Vector \<Rightarrow> error + ptr" where
  "end_it v = RawMemory_plus (data_m v) (size_m v)"

text \<open>
  \<^verbatim>\<open>Vector(size_t size)\<close>. When a construction throws, the member \<^verbatim>\<open>data_\<close> is
  destroyed and the constructor leaves no object.
\<close>

definition Vector_sized :: "'a elem_type \<Rightarrow> nat \<Rightarrow> 'a heap \<Rightarrow> (error + Vector) \<times> 'a heap" where
  "Vector_sized T sz h =
     (case RawMemory_ctor (sizeof T) sz h of
        (Inl e, h1) \<Rightarrow> (Inl e, h1)
      | (Inr d, h1) \<Rightarrow>
          (case uninitialized_value_construct_n T (GetAddress d) sz h1 of
             (Some e, h2) \<Rightarrow> (Inl e, RawMemory_dtor d h2)
           | (None, h2) \<Rightarrow> (Inr \<lparr>data_m = d, size_m = sz\<rparr>, h2)))"

text \<open>\<^verbatim>\<open>Vector(const Vector& other)\<close>\<close>

definition Vector_copy :: "'a elem_type \<Rightarrow> Vector \<Rightarrow> 'a heap \<Rightarrow> (error + Vector) \<times> 'a heap" where
  "Vector_copy T other h =
     (case RawMemory_ctor (sizeof T) (size_m other) h of
        (Inl e, h1) \<Rightarrow> (Inl e, h1)
      | (Inr d, h1) \<Rightarrow>
          (case uninitialized_copy_n T (GetAddress (data_m other)) (Size other) (GetAddress d) h1 of
             (Some e, h2) \<Rightarrow> (Inl e, RawMemory_dtor d h2)
           | (None, h2) \<Rightarrow> (Inr \<lparr>data_m = d, size_m = size_m other\<rparr>, h2)))"

text \<open>\<^verbatim>\<open>Swap(other)\<close>: \<^verbatim>\<open>*this\<close> afterwards, then \<^verbatim>\<open>other\<close> afterwards.\<close>

definition Vector_Swap :: "Vector \<Rightarrow> Vector \<Rightarrow> Vector \<times> Vector" where
  "Vector_Swap this other =
     (case RawMemory_Swap (data_m this) (data_m other) of
        (d, od) \<Rightarrow>
          (this\<lparr>data_m := d, size_m := size_m other\<rparr>,
           other\<lparr>data_m := od, size_m := size_m this\<rparr>))"

text \<open>\<^verbatim>\<open>Vector(Vector&& other)\<close>: the new object and \<open>other\<close> afterwards.\<close>

definition Vector_move :: "Vector \<Rightarrow> Vector \<times> Vector" where
  "Vector_move other = Vector_Swap Vector_default other"

text \<open>\<^verbatim>\<open>~Vector()\<close>, followed by the destructor of the member \<^verbatim>\<open>data_\<close>.\<close>

definition Vector_dtor :: "Vector \<Rightarrow> 'a heap \<Rightarrow> error + 'a heap" where
  "Vector_dtor v h =
     (case destroy_n (GetAddress (data_m v)) (size_m v) h of
        Inl e \<Rightarrow> Inl e
      | Inr h1 \<Rightarrow> Inr (RawMemory_dtor (data_m v) h1))"

text \<open>
  \<^verbatim>\<open>UninitCopyOrMove(from, count, to)\<close>: the choice between moving and copying that
  the source makes with \<^verbatim>\<open>if constexpr\<close>.
\<close>

definition UninitCopyOrMove ::
  "'a elem_type \<Rightarrow> ptr \<Rightarrow> nat \<Rightarrow> ptr \<Rightarrow> 'a heap \<Rightarrow> error option \<times> 'a heap" where
  "UninitCopyOrMove T from count to h =
     (if is_nothrow_move_constructible T \<or> \<not> is_copy_constructible T
      then uninitialized_move_n T from count to h
      else uninitialized_copy_n T from count to h)"

text \<open>
  \<^verbatim>\<open>operator=(const Vector& rhs)\<close>. The right-hand side is the object itself
  (\<^verbatim>\<open>this == &rhs\<close>) or another object, which the assignment only reads.
\<close>

datatype rhs_ref = Itself | Another Vector

definition assign_in_place :: "'a elem_type \<Rightarrow> Vector \<Rightarrow> Vector \<times> 'a heap \<Rightarrow> error option \<times> Vector \<times> 'a heap" where
  "assign_in_place T rhs s =
     (case s of (v, h) \<Rightarrow>
        (case copy_n T (begin_it rhs) (min (size_m rhs) (size_m v)) (begin_it v) h of
           (Some e, h1) \<Rightarrow> (Some e, v, h1)
         | (None, h1) \<Rightarrow>
             (if size_m v > size_m rhs
              then (case RawMemory_plus (data_m v) (size_m rhs) of
                      Inl e \<Rightarrow> (Some e, v, h1)
                    | Inr p \<Rightarrow>
                        (case destroy_n p (size_m v - size_m rhs) h1 of
                           Inl e \<Rightarrow> (Some e, v, h1)
                         | Inr h2 \<Rightarrow> (None, v\<lparr>size_m := size_m rhs\<rparr>, h2)))
              else (case RawMemory_plus (data_m rhs) (size_m v) of
                      Inl e \<Rightarrow> (Some e, v, h1)
                    | Inr src \<Rightarrow>
                        (case RawMemory_plus (data_m v) (size_m v) of
                           Inl e \<Rightarrow> (Some e, v, h1)
                         | Inr dst \<Rightarrow>
                             (case uninitialized_copy_n T src (size_m rhs - size_m v) dst h1 of
                                (Some e, h2) \<Rightarrow> (Some e, v, h2)
                              | (None, h2) \<Rightarrow> (None, v\<lparr>size_m := size_m rhs\<rparr>, h2)))))))"

text \<open>
  The other branch: \<^verbatim>\<open>Vector rhs_copy(rhs); Swap(rhs_copy);\<close> and, at the end of the
  block, the destructor of \<^verbatim>\<open>rhs_copy\<close>, which then holds the old content.
\<close>

definition assign_by_copy :: "'a elem_type \<Rightarrow> Vector \<Rightarrow> Vector \<times> 'a heap \<Rightarrow> error option \<times> Vector \<times> 'a heap" where
  "assign_by_copy T rhs s =
     (case s of (v, h) \<Rightarrow>
        (case Vector_copy T rhs h of
           (Inl e, h1) \<Rightarrow> (Some e, v, h1)
         | (Inr rhs_copy, h1) \<Rightarrow>
             (case Vector_Swap v rhs_copy of
                (v', rhs_copy') \<Rightarrow>
                  (case Vector_dtor rhs_copy' h1 of
                     Inl e \<Rightarrow> (Some e, v', h1)
                   | Inr h2 \<Rightarrow> (None, v', h2)))))"

definition copy_assignment :: "'a elem_type \<Rightarrow> rhs_ref \<Rightarrow> Vector \<times> 'a heap \<Rightarrow> error option \<times> Vector \<times> 'a heap" where
  "copy_assignment T r s =
     (case s of (v, h) \<Rightarrow>
        (case r of
           Itself \<Rightarrow> (None, v, h)
         | Another rhs \<Rightarrow>
             (if Capacity v \<ge> size_m rhs then assign_in_place T rhs (v, h)
              else assign_by_copy T rhs (v, h))))"

text \<open>\<^verbatim>\<open>operator=(Vector&& rhs)\<close>: \<^verbatim>\<open>Swap(rhs)\<close>\<close>

definition move_assignment :: "Vector \<Rightarrow> Vector \<Rightarrow> Vector \<times> Vector" where
  "move_assignment this rhs = Vector_Swap this rhs"

text \<open>
  \<^verbatim>\<open>Reserve(new_capacity)\<close>. The local \<^verbatim>\<open>new_data\<close> is destroyed on every way out of
  the function: it releases the new block when the relocation throws, and the old one
  after the swap.
\<close>

definition Reserve :: "'a elem_type \<Rightarrow> nat \<Rightarrow> Vector \<times> 'a heap \<Rightarrow> error option \<times> Vector \<times> 'a heap" where
  "Reserve T new_capacity s =
     (case s of (v, h) \<Rightarrow>
        (if new_capacity \<le> RawMemory_Capacity (data_m v) then (None, v, h)
         else
           (case RawMemory_ctor (sizeof T) new_capacity h of
              (Inl e, h1) \<Rightarrow> (Some e, v, h1)
            | (Inr new_data, h1) \<Rightarrow>
                (case UninitCopyOrMove T (GetAddress (data_m v)) (size_m v) (GetAddress new_data) h1 of
                   (Some e, h2) \<Rightarrow> (Some e, v, RawMemory_dtor new_data h2)
                 | (None, h2) \<Rightarrow>
                     (case destroy_n (GetAddress (data_m v)) (size_m v) h2 of
                        Inl e \<Rightarrow> (Some e, v, RawMemory_dtor new_data h2)
                      | Inr h3 \<Rightarrow>
                          (case RawMemory_Swap (data_m v) new_data of
                             (d, new_data') \<Rightarrow>
                               (None, v\<lparr>data_m := d\<rparr>, RawMemory_dtor new_data' h3)))))))"

text \<open>
  \<^verbatim>\<open>Resize(new_size)\<close>. In the second branch the source destroys the tail when
  \<^verbatim>\<open>new_size < size_\<close>, does nothing otherwise, and then sets \<^verbatim>\<open>size_\<close>.
\<close>

definition Resize :: "'a elem_type \<Rightarrow> nat \<Rightarrow> Vector \<times> 'a heap \<Rightarrow> error option \<times> Vector \<times> 'a heap" where
  "Resize T new_size s =
     (case s of (v, h) \<Rightarrow>
        (if new_size > RawMemory_Capacity (data_m v)
         then
           (case Reserve T new_size (v, h) of
              (Some e, v1, h1) \<Rightarrow> (Some e, v1, h1)
            | (None, v1, h1) \<Rightarrow>
                (case RawMemory_plus (data_m v1) (size_m v1) of
                   Inl e \<Rightarrow> (Some e, v1, h1)
                 | Inr p \<Rightarrow>
                     (case uninitialized_value_construct_n T p (size_sub new_size (size_m v1)) h1 of
                        (Some e, h2) \<Rightarrow> (Some e, v1, h2)
                      | (None, h2) \<Rightarrow> (None, v1\<lparr>size_m := new_size\<rparr>, h2))))
         else
           (case (if new_size < size_m v
                  then (case RawMemory_plus (data_m v) new_size of
                          Inl e \<Rightarrow> Inl e
                        | Inr p \<Rightarrow> destroy_n p (size_m v - new_size) h)
                  else Inr h) of
              Inl e \<Rightarrow> (Some e, v, h)
            | Inr h1 \<Rightarrow> (None, v\<lparr>size_m := new_size\<rparr>, h1))))"

text \<open>
  \<^verbatim>\<open>Emplace(pos, args...)\<close>. The three branches of the source are three functions here;
  \<open>indent\<close> is \<^verbatim>\<open>place_emplace_indent\<close>.

  The first branch: the new block \<^verbatim>\<open>mem_buff\<close>, the elements in front of \<^verbatim>\<open>pos\<close>, the
  new element, built from the arguments at this point, the elements from \<^verbatim>\<open>pos\<close> on;
  then the old elements are destroyed, the blocks swapped and \<^verbatim>\<open>mem_buff\<close>, destroyed
  at the end of the block, releases the old one. An exception on the way releases the
  new block.
\<close>

definition Emplace_grow ::
  "'a elem_type \<Rightarrow> ptr \<Rightarrow> nat \<Rightarrow> 'a args \<Rightarrow> Vector \<times> 'a heap \<Rightarrow> error option \<times> Vector \<times> 'a heap" where
  "Emplace_grow T pos indent args s =
     (case s of (v, h) \<Rightarrow>
        (case RawMemory_ctor (sizeof T) (if size_m v = 0 then 1 else size_mul (size_m v) 2) h of
           (Inl e, h1) \<Rightarrow> (Some e, v, h1)
         | (Inr mem_buff, h1) \<Rightarrow>
             (case RawMemory_plus mem_buff indent of
                Inl e \<Rightarrow> (Some e, v, RawMemory_dtor mem_buff h1)
              | Inr place_emplace \<Rightarrow>
                  (case distance (begin_it v) pos of
                     Inl e \<Rightarrow> (Some e, v, RawMemory_dtor mem_buff h1)
                   | Inr n_before \<Rightarrow>
                       (case UninitCopyOrMove T (GetAddress (data_m v)) n_before (GetAddress mem_buff) h1 of
                          (Some e, h2) \<Rightarrow> (Some e, v, RawMemory_dtor mem_buff h2)
                        | (None, h2) \<Rightarrow>
                            (case ConstructElement T place_emplace args h2 of
                               Inl e \<Rightarrow> (Some e, v, RawMemory_dtor mem_buff h2)
                             | Inr h3 \<Rightarrow>
                                 (case end_it v of
                                    Inl e \<Rightarrow> (Some e, v, RawMemory_dtor mem_buff h3)
                                  | Inr cend \<Rightarrow>
                                      (case distance pos cend of
                                         Inl e \<Rightarrow> (Some e, v, RawMemory_dtor mem_buff h3)
                                       | Inr n_after \<Rightarrow>
                                           (case RawMemory_plus mem_buff (size_add n_before 1) of
                                              Inl e \<Rightarrow> (Some e, v, RawMemory_dtor mem_buff h3)
                                            | Inr to \<Rightarrow>
                                                (case UninitCopyOrMove T pos n_after to h3 of
                                                   (Some e, h4) \<Rightarrow> (Some e, v, RawMemory_dtor mem_buff h4)
                                                 | (None, h4) \<Rightarrow>
                                                     (case destroy_n (GetAddress (data_m v)) (size_m v) h4 of
                                                        Inl e \<Rightarrow> (Some e, v, RawMemory_dtor mem_buff h4)
                                                      | Inr h5 \<Rightarrow>
                                                          (case RawMemory_Swap (data_m v) mem_buff of
                                                             (d, mem_buff') \<Rightarrow>
                                                               (None,
                                                                v\<lparr>data_m := d, size_m := size_add (size_m v) 1\<rparr>,
                                                                RawMemory_dtor mem_buff' h5)))))))))))))"

text \<open>
  The second branch, \<^verbatim>\<open>pos < end()\<close>: the temporary \<^verbatim>\<open>buff\<close>, built from the arguments
  before any element is touched, the last element moved into the slot behind it, the
  range from \<^verbatim>\<open>pos\<close> moved one slot to the back, \<^verbatim>\<open>buff\<close> moved into the slot at
  \<^verbatim>\<open>pos\<close>.
\<close>

definition Emplace_shift ::
  "'a elem_type \<Rightarrow> ptr \<Rightarrow> 'a args \<Rightarrow> Vector \<times> 'a heap \<Rightarrow> error option \<times> Vector \<times> 'a heap" where
  "Emplace_shift T place_emplace args s =
     (case s of (v, h) \<Rightarrow>
        (case construct T args h of
           Inl e \<Rightarrow> (Some e, v, h)
         | Inr (buff, h0) \<Rightarrow>
             (case RawMemory_plus (data_m v) (size_m v) of
                Inl e \<Rightarrow> (Some e, v, h0)
              | Inr e \<Rightarrow>
                  (case ptr_sub e 1 of
                     Inl err \<Rightarrow> (Some err, v, h0)
                   | Inr back \<Rightarrow>
                       (case move_construct_at T back e h0 of
                          Inl err \<Rightarrow> (Some err, v, h0)
                        | Inr h1 \<Rightarrow>
                            (case move_backward T place_emplace back e h1 of
                               (Some err, h2) \<Rightarrow> (Some err, v, h2)
                             | (None, h2) \<Rightarrow>
                                 (case move_assign_from T buff place_emplace h2 of
                                    Inl err \<Rightarrow> (Some err, v, h2)
                                  | Inr h3 \<Rightarrow>
                                      (None, v\<lparr>size_m := size_add (size_m v) 1\<rparr>, h3))))))))"

text \<open>The third branch: the new element is constructed in the slot at \<^verbatim>\<open>end()\<close>.\<close>

definition Emplace_at_end ::
  "'a elem_type \<Rightarrow> ptr \<Rightarrow> 'a args \<Rightarrow> Vector \<times> 'a heap \<Rightarrow> error option \<times> Vector \<times> 'a heap" where
  "Emplace_at_end T place_emplace args s =
     (case s of (v, h) \<Rightarrow>
        (case ConstructElement T place_emplace args h of
           Inl e \<Rightarrow> (Some e, v, h)
         | Inr h1 \<Rightarrow> (None, v\<lparr>size_m := size_add (size_m v) 1\<rparr>, h1)))"

text \<open>\<^verbatim>\<open>pos < end()\<close> on two pointers into one block\<close>

definition ptr_less :: "ptr \<Rightarrow> ptr \<Rightarrow> bool" where
  "ptr_less p q = (snd p < snd q)"

text \<open>The \<^verbatim>\<open>else\<close> part of the outer \<^verbatim>\<open>if\<close>: the two branches without a new block.\<close>

definition Emplace_in_place ::
  "'a elem_type \<Rightarrow> ptr \<Rightarrow> nat \<Rightarrow> 'a args \<Rightarrow> Vector \<times> 'a heap \<Rightarrow> error option \<times> Vector \<times> 'a heap" where
  "Emplace_in_place T pos indent args s =
     (case s of (v, h) \<Rightarrow>
        (case RawMemory_plus (data_m v) indent of
           Inl e \<Rightarrow> (Some e, v, h)
         | Inr place_emplace \<Rightarrow>
             (case end_it v of
                Inl e \<Rightarrow> (Some e, v, h)
              | Inr e \<Rightarrow>
                  (if ptr_less pos e then Emplace_shift T place_emplace args (v, h)
                   else Emplace_at_end T place_emplace args (v, h)))))"

definition Emplace ::
  "'a elem_type \<Rightarrow> ptr \<Rightarrow> 'a args \<Rightarrow> Vector \<times> 'a heap \<Rightarrow> (error + ptr) \<times> Vector \<times> 'a heap" where
  "Emplace T pos args s =
     (case s of (v, h) \<Rightarrow>
        (case distance (begin_it v) pos of
           Inl e \<Rightarrow> (Inl e, v, h)
         | Inr indent \<Rightarrow>
             (case
                (if RawMemory_Capacity (data_m v) < size_add (size_m v) 1
                    \<or> RawMemory_Capacity (data_m v) = size_m v
                 then Emplace_grow T pos indent args (v, h)
                 else Emplace_in_place T pos indent args (v, h)) of
                (Some e, v', h') \<Rightarrow> (Inl e, v', h')
              | (None, v', h') \<Rightarrow> (Inr (ptr_add (GetAddress (data_m v')) indent), v', h'))))"

text \<open>
  \<^verbatim>\<open>EmplaceBack\<close> returns the reference \<^verbatim>\<open>*(Emplace(end(), args...))\<close>, the address of
  the new element.
\<close>

definition EmplaceBack ::
  "'a elem_type \<Rightarrow> 'a args \<Rightarrow> Vector \<times> 'a heap \<Rightarrow> (error + ptr) \<times> Vector \<times> 'a heap" where
  "EmplaceBack T args s =
     (case s of (v, h) \<Rightarrow>
        (case end_it v of
           Inl e \<Rightarrow> (Inl e, v, h)
         | Inr e \<Rightarrow> Emplace T e args (v, h)))"

text \<open>
  \<^verbatim>\<open>PushBack(const T& value)\<close> forwards the reference as an lvalue,
  \<^verbatim>\<open>PushBack(T&& value)\<close> as an rvalue (\<^verbatim>\<open>std::move(value)\<close>); so do the two \<^verbatim>\<open>Insert\<close>.
  \<open>val\<close> is the object the reference is bound to.
\<close>

definition drop_result :: "(error + 'r) \<times> 's \<Rightarrow> error option \<times> 's" where
  "drop_result r = (case r of (Inl e, s) \<Rightarrow> (Some e, s) | (Inr x, s) \<Rightarrow> (None, s))"

definition PushBack_copy :: "'a elem_type \<Rightarrow> 'a object \<Rightarrow> Vector \<times> 'a heap \<Rightarrow> error option \<times> Vector \<times> 'a heap" where
  "PushBack_copy T val s = drop_result (EmplaceBack T (Lvalue val) s)"

definition PushBack_move :: "'a elem_type \<Rightarrow> 'a object \<Rightarrow> Vector \<times> 'a heap \<Rightarrow> error option \<times> Vector \<times> 'a heap" where
  "PushBack_move T val s = drop_result (EmplaceBack T (Rvalue val) s)"

definition Insert_copy ::
  "'a elem_type \<Rightarrow> ptr \<Rightarrow> 'a object \<Rightarrow> Vector \<times> 'a heap \<Rightarrow> (error + ptr) \<times> Vector \<times> 'a heap" where
  "Insert_copy T pos val s = Emplace T pos (Lvalue val) s"

definition Insert_move ::
  "'a elem_type \<Rightarrow> ptr \<Rightarrow> 'a object \<Rightarrow> Vector \<times> 'a heap \<Rightarrow> (error + ptr) \<times> Vector \<times> 'a heap" where
  "Insert_move T pos val s = Emplace T pos (Rvalue val) s"

text \<open>\<^verbatim>\<open>PopBack()\<close> with its \<^verbatim>\<open>assert(size_ > 0)\<close>\<close>

definition PopBack :: "Vector \<times> 'a heap \<Rightarrow> error option \<times> Vector \<times> 'a heap" where
  "PopBack s =
     (case s of (v, h) \<Rightarrow>
        (if size_m v > 0
         then (case RawMemory_plus (data_m v) (size_m v - 1) of
                 Inl e \<Rightarrow> (Some e, v, h)
               | Inr p \<Rightarrow>
                   (case Destroy p h of
                      Inl e \<Rightarrow> (Some e, v, h)
                    | Inr h1 \<Rightarrow> (None, v\<lparr>size_m := size_m v - 1\<rparr>, h1)))
         else (Some PreconditionViolation, v, h)))"

text \<open>
  \<^verbatim>\<open>template<class InputIt> std::distance(InputIt first, InputIt last)\<close> has one template
  parameter for both arguments: the call compiles when the two arguments have one type,
  \<^verbatim>\<open>iterator\<close> (\<^verbatim>\<open>T*\<close>) or \<^verbatim>\<open>const_iterator\<close> (\<^verbatim>\<open>const T*\<close>), and the deduction of
  \<^verbatim>\<open>InputIt\<close> fails when they differ. Every other call of \<^verbatim>\<open>std::distance\<close> in the
  source has two arguments of type \<^verbatim>\<open>const_iterator\<close>.
\<close>

datatype iterator_type = Iterator | ConstIterator

definition deduce_InputIt :: "iterator_type \<Rightarrow> iterator_type \<Rightarrow> iterator_type option" where
  "deduce_InputIt first_type last_type =
     (if first_type = last_type then Some first_type else None)"

text \<open>
  \<^verbatim>\<open>Erase(pos)\<close>: the elements behind \<^verbatim>\<open>pos\<close> are assigned one slot to the front, by
  move or by copy, then \<^verbatim>\<open>PopBack()\<close>.

  The two branches are the branches of an \<^verbatim>\<open>if constexpr\<close>: the compiler instantiates
  the first one alone for a type that is nothrow move constructible or not copy
  constructible, and the second one alone for any other type. The second branch holds
  the call \<^verbatim>\<open>std::distance(pos + 1, end())\<close>, where \<^verbatim>\<open>pos + 1\<close> is a \<^verbatim>\<open>const_iterator\<close>
  and \<^verbatim>\<open>end()\<close>, called on the non-const object, an \<^verbatim>\<open>iterator\<close>.
\<close>

definition Erase_compiles :: "'a elem_type \<Rightarrow> bool" where
  "Erase_compiles T =
     (if is_nothrow_move_constructible T \<or> \<not> is_copy_constructible T then True
      else deduce_InputIt ConstIterator Iterator \<noteq> None)"

definition Erase ::
  "'a elem_type \<Rightarrow> ptr \<Rightarrow> Vector \<times> 'a heap \<Rightarrow> (error + ptr) \<times> Vector \<times> 'a heap" where
  "Erase T pos s =
     (case s of (v, h) \<Rightarrow>
        (if \<not> Erase_compiles T then (Inl IllFormed, v, h)
         else
           (case distance (begin_it v) pos of
              Inl e \<Rightarrow> (Inl e, v, h)
            | Inr d \<Rightarrow>
                (case end_it v of
                   Inl e \<Rightarrow> (Inl e, v, h)
                 | Inr e \<Rightarrow>
                     (case
                        (if is_nothrow_move_constructible T \<or> \<not> is_copy_constructible T
                         then std_move T (ptr_add (ptr_add (begin_it v) d) 1) e (ptr_add (begin_it v) d) h
                         else
                           (case distance (ptr_add pos 1) e of
                              Inl err \<Rightarrow> (Some err, h)
                            | Inr n \<Rightarrow>
                                copy_n T (ptr_add (ptr_add (begin_it v) d) 1) n (ptr_add (begin_it v) d) h)) of
                        (Some err, h1) \<Rightarrow> (Inl err, v, h1)
                      | (None, h1) \<Rightarrow>
                          (case PopBack (v, h1) of
                             (Some err, s') \<Rightarrow> (Inl err, s')
                           | (None, s') \<Rightarrow> (Inr (ptr_add (begin_it v) d), s')))))))"

text \<open>
  \<^verbatim>\<open>operator[](index)\<close> with its \<^verbatim>\<open>assert(index < size_)\<close> returns a reference, the
  address of the slot; \<open>at\<close> reads the element through it, and \<open>elements\<close> is what
  a caller sees at the indices below \<^verbatim>\<open>Size()\<close>.
\<close>

definition Vector_index :: "Vector \<Rightarrow> nat \<Rightarrow> error + ptr" where
  "Vector_index v index =
     (if index < size_m v then RawMemory_index (data_m v) index
      else Inl PreconditionViolation)"

definition at :: "'a heap \<Rightarrow> Vector \<Rightarrow> nat \<Rightarrow> error + 'a" where
  "at h v index = (case Vector_index v index of Inl e \<Rightarrow> Inl e | Inr p \<Rightarrow> read_slot h p)"

definition elements :: "'a heap \<Rightarrow> Vector \<Rightarrow> (error + 'a) list" where
  "elements h v = map (at h v) [0..<Size v]"

text \<open>
  An object handed to \<^verbatim>\<open>PushBack\<close>: an lvalue, taken by the overload that copies, or an
  rvalue, taken by the overload that moves.
\<close>

datatype 'a pushed = ByCopy "'a object" | ByMove "'a object"

text \<open>The value of a pushed object that lies outside the blocks.\<close>

fun pushed_value :: "'a pushed \<Rightarrow> 'a option" where
  "pushed_value (ByCopy (Outside x)) = Some x"
| "pushed_value (ByCopy (Slot p)) = None"
| "pushed_value (ByMove (Outside x)) = Some x"
| "pushed_value (ByMove (Slot p)) = None"

fun PushBack :: "'a elem_type \<Rightarrow> 'a pushed \<Rightarrow> Vector \<times> 'a heap \<Rightarrow> error option \<times> Vector \<times> 'a heap" where
  "PushBack T (ByCopy x) s = PushBack_copy T x s"
| "PushBack T (ByMove x) s = PushBack_move T x s"

text \<open>A run of \<^verbatim>\<open>PushBack\<close> calls; the first exception ends it.\<close>

fun push_all :: "'a elem_type \<Rightarrow> 'a pushed list \<Rightarrow> Vector \<times> 'a heap \<Rightarrow> error option \<times> Vector \<times> 'a heap" where
  "push_all T [] s = (None, s)"
| "push_all T (p # ps) s =
     (case PushBack T p s of
        (Some e, s') \<Rightarrow> (Some e, s')
      | (None, s') \<Rightarrow> push_all T ps s')"

text \<open>A run of calls that can only add capacity.\<close>

datatype 'a call = PushBackCall "'a pushed" | ReserveCall nat | ResizeCall nat

fun run_call :: "'a elem_type \<Rightarrow> 'a call \<Rightarrow> Vector \<times> 'a heap \<Rightarrow> error option \<times> Vector \<times> 'a heap" where
  "run_call T (PushBackCall p) s = PushBack T p s"
| "run_call T (ReserveCall n) s = Reserve T n s"
| "run_call T (ResizeCall n) s = Resize T n s"

fun run_calls :: "'a elem_type \<Rightarrow> 'a call list \<Rightarrow> Vector \<times> 'a heap \<Rightarrow> error option \<times> Vector \<times> 'a heap" where
  "run_calls T [] s = (None, s)"
| "run_calls T (c # cs) s =
     (case run_call T c s of
        (Some e, s') \<Rightarrow> (Some e, s')
      | (None, s') \<Rightarrow> run_calls T cs s')"

section \<open>Ranges of slots\<close>

text \<open>
  The \<open>n\<close> slots of a block from offset \<open>i\<close> on, and a block with the slots from
  offset \<open>j\<close> on replaced by \<open>ys\<close>.
\<close>

definition slice :: "nat \<Rightarrow> nat \<Rightarrow> 'b list \<Rightarrow> 'b list" where
  "slice i n xs = take n (drop i xs)"

definition overwrite :: "nat \<Rightarrow> 'b list \<Rightarrow> 'b list \<Rightarrow> 'b list" where
  "overwrite j ys xs = take j xs @ ys @ drop (j + length ys) xs"

section \<open>Well-formed containers and element types\<close>

text \<open>The number of slots of each block of a heap.\<close>

definition layout :: "'a heap \<Rightarrow> nat \<Rightarrow> nat option" where
  "layout h b = map_option length (block_of h b)"

text \<open>
  \<open>h'\<close> is \<open>h\<close> with other contents in slots of the blocks in \<open>B\<close>, and nothing else
  changed: no block allocated, released or resized.
\<close>

definition modifies :: "nat set \<Rightarrow> 'a heap \<Rightarrow> 'a heap \<Rightarrow> bool" where
  "modifies B h h' =
     (layout h' = layout h \<and> allocated h' = allocated h \<and>
      (\<forall>b. b \<notin> B \<longrightarrow> block_of h' b = block_of h b))"

text \<open>
  The data model of the container: \<^verbatim>\<open>size_ <= capacity\<close>, and the capacity is a
  \<^verbatim>\<open>size_t\<close>; an empty \<^verbatim>\<open>RawMemory\<close> holds \<^verbatim>\<open>nullptr\<close>, any other the start of a block
  of which the first \<^verbatim>\<open>size_\<close> slots hold live objects. The block has at most
  \<^verbatim>\<open>capacity_\<close> slots; it has fewer when the byte size of the request that made it
  wrapped around.
\<close>

definition vector_ok :: "'a heap \<Rightarrow> Vector \<Rightarrow> bool" where
  "vector_ok h v =
     (size_m v \<le> capacity_m (data_m v) \<and> capacity_m (data_m v) < size_max \<and>
      (if capacity_m (data_m v) = 0 then buffer_m (data_m v) = nullptr
       else snd (buffer_m (data_m v)) = 0 \<and>
            (case block_of h (fst (buffer_m (data_m v))) of
               None \<Rightarrow> False
             | Some ss \<Rightarrow>
                 size_m v \<le> length ss \<and> length ss \<le> capacity_m (data_m v) \<and>
                 list_all (\<lambda>s. s \<noteq> None) (take (size_m v) ss))))"

text \<open>The invariant of the two sizes.\<close>

definition size_inv :: "Vector \<Rightarrow> bool" where
  "size_inv v = (size_m v \<le> capacity_m (data_m v))"

text \<open>The live slots of a container: the first \<^verbatim>\<open>size_\<close> slots of its block.\<close>

definition slots :: "'a heap \<Rightarrow> Vector \<Rightarrow> 'a option list" where
  "slots h v =
     (case block_of h (fst (buffer_m (data_m v))) of
        None \<Rightarrow> []
      | Some ss \<Rightarrow> take (size_m v) ss)"

text \<open>
  An element type has value semantics when a copy or a move that does not throw
  produces the value of its source.
\<close>

definition value_semantics :: "'a elem_type \<Rightarrow> bool" where
  "value_semantics T =
     ((\<forall>x y. copy_ctor T x = Some y \<longrightarrow> y = x) \<and>
      (\<forall>x y x'. move_ctor T x = Some (y, x') \<longrightarrow> y = x) \<and>
      (\<forall>d x d'. copy_assign T d x = Some d' \<longrightarrow> d' = x) \<and>
      (\<forall>d x d' x'. move_assign T d x = Some (d', x') \<longrightarrow> d' = x))"

text \<open>\<^verbatim>\<open>int\<close> as element type: nothing throws, a move leaves its source as it was.\<close>

definition int_type :: "int elem_type" where
  "int_type =
     \<lparr>sizeof = 4,
      is_nothrow_move_constructible = True,
      is_copy_constructible = True,
      value_init = Some 0,
      copy_ctor = (\<lambda>x. Some x),
      move_ctor = (\<lambda>x. Some (x, x)),
      copy_assign = (\<lambda>d x. Some x),
      move_assign = (\<lambda>d x. Some (x, x))\<rparr>"

text \<open>
  A class that wraps an \<^verbatim>\<open>int\<close>, whose copy operations throw for the value \<open>13\<close> and
  whose move constructor is not \<^verbatim>\<open>noexcept\<close>: the container relocates it by copy.
\<close>

definition throwing_type :: "int elem_type" where
  "throwing_type =
     \<lparr>sizeof = 4,
      is_nothrow_move_constructible = False,
      is_copy_constructible = True,
      value_init = Some 0,
      copy_ctor = (\<lambda>x. if x = 13 then None else Some x),
      move_ctor = (\<lambda>x. Some (x, 0)),
      copy_assign = (\<lambda>d x. if x = 13 then None else Some x),
      move_assign = (\<lambda>d x. Some (x, 0))\<rparr>"

text \<open>
  A class that wraps an \<^verbatim>\<open>int\<close> and whose move operations are \<^verbatim>\<open>noexcept\<close> and leave
  \<open>0\<close> in their source, as the move of a smart pointer or of a string empties its
  source. Copies and moves produce the value of their source: the type has value
  semantics.
\<close>

definition resetting_type :: "int elem_type" where
  "resetting_type =
     \<lparr>sizeof = 4,
      is_nothrow_move_constructible = True,
      is_copy_constructible = True,
      value_init = Some 0,
      copy_ctor = (\<lambda>x. Some x),
      move_ctor = (\<lambda>x. Some (x, 0)),
      copy_assign = (\<lambda>d x. Some x),
      move_assign = (\<lambda>d x. Some (x, 0))\<rparr>"

text \<open>The heap before the first allocation, with an allocator that grants \<open>lim\<close> bytes.\<close>

definition empty_heap :: "nat \<Rightarrow> 'a heap" where
  "empty_heap lim = \<lparr>blocks = (\<lambda>b. None), allocated = 0, limit = lim\<rparr>"

text \<open>
  Three containers of \<^verbatim>\<open>int\<close>, each alone in its heap: \<open>[1, 2, 3]\<close> with capacity \<open>4\<close>,
  \<open>[99]\<close> with capacity \<open>4\<close>, and \<open>[1, 2]\<close> with capacity \<open>2\<close>.
\<close>

definition heap_123 :: "int heap" where
  "heap_123 = \<lparr>blocks = [1 \<mapsto> [Some 1, Some 2, Some 3, None]], allocated = 1, limit = 100\<rparr>"

definition vec_123 :: Vector where
  "vec_123 = \<lparr>data_m = \<lparr>buffer_m = (1, 0), capacity_m = 4\<rparr>, size_m = 3\<rparr>"

definition heap_99 :: "int heap" where
  "heap_99 = \<lparr>blocks = [1 \<mapsto> [Some 99, None, None, None]], allocated = 1, limit = 100\<rparr>"

definition vec_99 :: Vector where
  "vec_99 = \<lparr>data_m = \<lparr>buffer_m = (1, 0), capacity_m = 4\<rparr>, size_m = 1\<rparr>"

definition heap_12 :: "int heap" where
  "heap_12 = \<lparr>blocks = [1 \<mapsto> [Some 1, Some 2]], allocated = 1, limit = 100\<rparr>"

definition vec_12 :: Vector where
  "vec_12 = \<lparr>data_m = \<lparr>buffer_m = (1, 0), capacity_m = 2\<rparr>, size_m = 2\<rparr>"

text \<open>
  The container \<open>[5]\<close> with capacity \<open>1\<close>, as a \<^verbatim>\<open>PushBack\<close> on an empty container
  leaves it.
\<close>

definition heap_5 :: "int heap" where
  "heap_5 = \<lparr>blocks = [1 \<mapsto> [Some 5]], allocated = 1, limit = 100\<rparr>"

definition vec_5 :: Vector where
  "vec_5 = \<lparr>data_m = \<lparr>buffer_m = (1, 0), capacity_m = 1\<rparr>, size_m = 1\<rparr>"

text \<open>Two containers in one heap: \<open>[1, 13, 3]\<close> with capacity \<open>4\<close> and \<open>[7, 8]\<close>.\<close>

definition heap_two :: "int heap" where
  "heap_two =
     \<lparr>blocks = [1 \<mapsto> [Some 1, Some 13, Some 3, None], 2 \<mapsto> [Some 7, Some 8]],
      allocated = 2, limit = 100\<rparr>"

definition vec_13 :: Vector where
  "vec_13 = \<lparr>data_m = \<lparr>buffer_m = (1, 0), capacity_m = 4\<rparr>, size_m = 3\<rparr>"

definition vec_78 :: Vector where
  "vec_78 = \<lparr>data_m = \<lparr>buffer_m = (2, 0), capacity_m = 2\<rparr>, size_m = 2\<rparr>"


section \<open>The heap\<close>

lemma block_of_set_block:
  "block_of (set_block b ss h) b' =
     (if b' = b then (if 0 < b \<and> b \<le> allocated h then Some ss else None) else block_of h b')"
  by (simp add: block_of_def set_block_def)

lemma allocated_set_block: "allocated (set_block b ss h) = allocated h"
  by (simp add: set_block_def)

lemma set_block_twice: "set_block b s2 (set_block b s1 h) = set_block b s2 h"
  by (simp add: set_block_def)

lemma set_block_same: "block_of h b = Some ss \<Longrightarrow> set_block b ss h = h"
  by (auto simp: block_of_def set_block_def fun_upd_idem split: if_splits)

lemma block_of_SomeD: "block_of h b = Some ss \<Longrightarrow> 0 < b \<and> b \<le> allocated h"
  by (simp add: block_of_def split: if_splits)

lemma layout_null: "layout h 0 = None"
  by (simp add: layout_def block_of_def)

lemma layout_SomeD: "layout h b = Some n \<Longrightarrow> \<exists>ss. block_of h b = Some ss \<and> length ss = n"
  by (auto simp: layout_def)

lemma layout_block: "block_of h b = Some ss \<Longrightarrow> layout h b = Some (length ss)"
  by (simp add: layout_def)

subsection \<open>Steps that rewrite slots\<close>

lemma modifies_refl: "modifies B h h"
  by (simp add: modifies_def)

lemma modifies_trans: "modifies B h h1 \<Longrightarrow> modifies B h1 h2 \<Longrightarrow> modifies B h h2"
  by (simp add: modifies_def)

lemma modifies_mono: "modifies B h h' \<Longrightarrow> B \<subseteq> B' \<Longrightarrow> modifies B' h h'"
  by (auto simp: modifies_def)

lemma modifies_layout: "modifies B h h' \<Longrightarrow> layout h' = layout h"
  by (simp add: modifies_def)

lemma modifies_allocated: "modifies B h h' \<Longrightarrow> allocated h' = allocated h"
  by (simp add: modifies_def)

lemma modifies_frame: "modifies B h h' \<Longrightarrow> b \<notin> B \<Longrightarrow> block_of h' b = block_of h b"
  by (simp add: modifies_def)

lemma set_block_modifies:
  assumes "block_of h b = Some ss" "length ss' = length ss"
  shows "modifies {b} h (set_block b ss' h)"
  using assms block_of_SomeD[OF assms(1)]
  by (auto simp: modifies_def layout_def fun_eq_iff block_of_set_block allocated_set_block)

lemma write_slot_modifies: "write_slot p s h = Inr h' \<Longrightarrow> modifies {fst p} h h'"
  by (auto simp: write_slot_def split: option.splits if_splits intro!: set_block_modifies)

text \<open>A write that succeeds went to a slot of its block.\<close>

lemma write_slot_range:
  "write_slot p s h = Inr h' \<Longrightarrow> \<exists>n. layout h (fst p) = Some n \<and> snd p < n"
  by (auto simp: write_slot_def layout_def split: option.splits if_splits)

lemma placement_new_modifies: "placement_new p made h = Inr h' \<Longrightarrow> modifies {fst p} h h'"
  by (auto simp: placement_new_def split: option.splits dest: write_slot_modifies)

lemma placement_new_range:
  "placement_new p made h = Inr h' \<Longrightarrow> \<exists>n. layout h (fst p) = Some n \<and> snd p < n"
  by (auto simp: placement_new_def split: option.splits dest: write_slot_range)

lemma Destroy_modifies: "Destroy p h = Inr h' \<Longrightarrow> modifies {fst p} h h'"
  by (auto simp: Destroy_def split: sum.splits dest: write_slot_modifies)

lemma copy_construct_at_modifies:
  "copy_construct_at T src dst h = Inr h' \<Longrightarrow> modifies {fst dst} h h'"
  by (auto simp: copy_construct_at_def split: sum.splits dest: placement_new_modifies)

lemma copy_construct_at_range:
  "copy_construct_at T src dst h = Inr h' \<Longrightarrow> \<exists>n. layout h (fst dst) = Some n \<and> snd dst < n"
  by (auto simp: copy_construct_at_def split: sum.splits dest: placement_new_range)

lemma move_construct_at_modifies:
  assumes "move_construct_at T src dst h = Inr h'"
  shows "modifies {fst src, fst dst} h h'"
proof -
  from assms obtain x' y h1 where
    w1: "write_slot src (Some x') h = Inr h1" and w2: "write_slot dst (Some y) h1 = Inr h'"
    by (auto simp: move_construct_at_def split: sum.splits option.splits)
  from write_slot_modifies[OF w1] have "modifies {fst src, fst dst} h h1"
    by (rule modifies_mono) simp
  moreover from write_slot_modifies[OF w2] have "modifies {fst src, fst dst} h1 h'"
    by (rule modifies_mono) simp
  ultimately show ?thesis by (rule modifies_trans)
qed

lemma move_construct_at_range:
  assumes "move_construct_at T src dst h = Inr h'"
  shows "\<exists>n. layout h (fst dst) = Some n \<and> snd dst < n"
proof -
  from assms obtain x' y h1 where
    w1: "write_slot src (Some x') h = Inr h1" and w2: "write_slot dst (Some y) h1 = Inr h'"
    by (auto simp: move_construct_at_def split: sum.splits option.splits)
  from write_slot_range[OF w2] modifies_layout[OF write_slot_modifies[OF w1]]
  show ?thesis by simp
qed

lemma copy_assign_at_modifies:
  "copy_assign_at T src dst h = Inr h' \<Longrightarrow> modifies {fst dst} h h'"
  by (auto simp: copy_assign_at_def split: sum.splits option.splits dest: write_slot_modifies)

lemma move_assign_at_modifies:
  assumes "move_assign_at T src dst h = Inr h'"
  shows "modifies {fst src, fst dst} h h'"
proof -
  from assms obtain x' y h1 where
    w1: "write_slot src (Some x') h = Inr h1" and w2: "write_slot dst (Some y) h1 = Inr h'"
    by (auto simp: move_assign_at_def split: sum.splits option.splits)
  from write_slot_modifies[OF w1] have "modifies {fst src, fst dst} h h1"
    by (rule modifies_mono) simp
  moreover from write_slot_modifies[OF w2] have "modifies {fst src, fst dst} h1 h'"
    by (rule modifies_mono) simp
  ultimately show ?thesis by (rule modifies_trans)
qed

lemma move_assign_from_modifies:
  "move_assign_from T buff dst h = Inr h' \<Longrightarrow> modifies {fst dst} h h'"
  by (auto simp: move_assign_from_def split: sum.splits option.splits dest: write_slot_modifies)

lemma write_object_layout:
  "write_object ob x' h = Inr h' \<Longrightarrow> layout h' = layout h \<and> allocated h' = allocated h"
  by (cases ob) (auto dest!: write_slot_modifies simp: modifies_def)

lemma construct_layout:
  "construct T a h = Inr (x, h') \<Longrightarrow> layout h' = layout h \<and> allocated h' = allocated h"
  by (cases a) (auto split: option.splits sum.splits dest!: write_object_layout)

lemma ConstructElement_layout:
  assumes "ConstructElement T buf a h = Inr h'"
  shows "layout h' = layout h \<and> allocated h' = allocated h \<and>
         (\<exists>n. layout h (fst buf) = Some n \<and> snd buf < n)"
proof -
  from assms obtain x h1 where c: "construct T a h = Inr (x, h1)"
    and w: "write_slot buf (Some x) h1 = Inr h'"
    by (auto simp: ConstructElement_def split: sum.splits)
  from construct_layout[OF c] write_slot_modifies[OF w] write_slot_range[OF w]
  show ?thesis by (simp add: modifies_def)
qed

lemma ptr_add_fst: "fst (ptr_add p n) = fst p"
  by (simp add: ptr_add_def)

lemma ptr_add_snd: "snd (ptr_add p n) = snd p + n"
  by (simp add: ptr_add_def)

lemma destroy_n_modifies: "destroy_n p n h = Inr h' \<Longrightarrow> modifies {fst p} h h'"
proof (induction n arbitrary: p h)
  case 0
  then show ?case by (simp add: modifies_refl)
next
  case (Suc n)
  from Suc.prems obtain h1 where d: "Destroy p h = Inr h1"
    and r: "destroy_n (ptr_add p 1) n h1 = Inr h'"
    by (auto split: sum.splits)
  from Suc.IH[OF r] have "modifies {fst p} h1 h'" by (simp add: ptr_add_fst)
  with Destroy_modifies[OF d] show ?case by (rule modifies_trans)
qed

lemma uninitialized_value_construct_n_modifies:
  "uninitialized_value_construct_n T p n h = (r, h') \<Longrightarrow> modifies {fst p} h h'"
proof (induction n arbitrary: p h r h')
  case 0
  then show ?case by (simp add: modifies_refl)
next
  case (Suc n)
  show ?case
  proof (cases "placement_new p (value_init T) h")
    case (Inl e)
    with Suc.prems show ?thesis by (simp add: modifies_refl)
  next
    case (Inr h1)
    note s1 = placement_new_modifies[OF Inr]
    obtain r2 h2 where rec: "uninitialized_value_construct_n T (ptr_add p 1) n h1 = (r2, h2)"
      by (cases "uninitialized_value_construct_n T (ptr_add p 1) n h1") auto
    from Suc.IH[OF rec] have s2: "modifies {fst p} h1 h2" by (simp add: ptr_add_fst)
    note s12 = modifies_trans[OF s1 s2]
    show ?thesis
    proof (cases r2)
      case None
      with Suc.prems Inr rec s12 show ?thesis by simp
    next
      case (Some e)
      show ?thesis
      proof (cases "Destroy p h2")
        case (Inl e')
        with Suc.prems Inr rec Some s12 show ?thesis by simp
      next
        case d: (Inr h3)
        from modifies_trans[OF s12 Destroy_modifies[OF d]] Suc.prems Inr rec Some d
        show ?thesis by simp
      qed
    qed
  qed
qed

lemma uninitialized_copy_n_modifies:
  "uninitialized_copy_n T p n q h = (r, h') \<Longrightarrow> modifies {fst q} h h'"
proof (induction n arbitrary: p q h r h')
  case 0
  then show ?case by (simp add: modifies_refl)
next
  case (Suc n)
  show ?case
  proof (cases "copy_construct_at T p q h")
    case (Inl e)
    with Suc.prems show ?thesis by (simp add: modifies_refl)
  next
    case (Inr h1)
    note s1 = copy_construct_at_modifies[OF Inr]
    obtain r2 h2 where rec: "uninitialized_copy_n T (ptr_add p 1) n (ptr_add q 1) h1 = (r2, h2)"
      by (cases "uninitialized_copy_n T (ptr_add p 1) n (ptr_add q 1) h1") auto
    from Suc.IH[OF rec] have s2: "modifies {fst q} h1 h2" by (simp add: ptr_add_fst)
    note s12 = modifies_trans[OF s1 s2]
    show ?thesis
    proof (cases r2)
      case None
      with Suc.prems Inr rec s12 show ?thesis by simp
    next
      case (Some e)
      show ?thesis
      proof (cases "Destroy q h2")
        case (Inl e')
        with Suc.prems Inr rec Some s12 show ?thesis by simp
      next
        case d: (Inr h3)
        from modifies_trans[OF s12 Destroy_modifies[OF d]] Suc.prems Inr rec Some d
        show ?thesis by simp
      qed
    qed
  qed
qed

lemma uninitialized_move_n_modifies:
  "uninitialized_move_n T p n q h = (r, h') \<Longrightarrow> modifies {fst p, fst q} h h'"
proof (induction n arbitrary: p q h r h')
  case 0
  then show ?case by (simp add: modifies_refl)
next
  case (Suc n)
  show ?case
  proof (cases "move_construct_at T p q h")
    case (Inl e)
    with Suc.prems show ?thesis by (simp add: modifies_refl)
  next
    case (Inr h1)
    note s1 = move_construct_at_modifies[OF Inr]
    obtain r2 h2 where rec: "uninitialized_move_n T (ptr_add p 1) n (ptr_add q 1) h1 = (r2, h2)"
      by (cases "uninitialized_move_n T (ptr_add p 1) n (ptr_add q 1) h1") auto
    from Suc.IH[OF rec] have s2: "modifies {fst p, fst q} h1 h2" by (simp add: ptr_add_fst)
    note s12 = modifies_trans[OF s1 s2]
    show ?thesis
    proof (cases r2)
      case None
      with Suc.prems Inr rec s12 show ?thesis by simp
    next
      case (Some e)
      show ?thesis
      proof (cases "Destroy q h2")
        case (Inl e')
        with Suc.prems Inr rec Some s12 show ?thesis by simp
      next
        case d: (Inr h3)
        from Destroy_modifies[OF d] have "modifies {fst p, fst q} h2 h3"
          by (rule modifies_mono) simp
        from modifies_trans[OF s12 this] Suc.prems Inr rec Some d
        show ?thesis by simp
      qed
    qed
  qed
qed

lemma UninitCopyOrMove_modifies:
  "UninitCopyOrMove T p n q h = (r, h') \<Longrightarrow> modifies {fst p, fst q} h h'"
  by (auto simp: UninitCopyOrMove_def split: if_splits
      dest: uninitialized_move_n_modifies
      dest!: uninitialized_copy_n_modifies intro: modifies_mono)

lemma copy_n_modifies: "copy_n T p n q h = (r, h') \<Longrightarrow> modifies {fst q} h h'"
proof (induction n arbitrary: p q h)
  case 0
  then show ?case by (simp add: modifies_refl)
next
  case (Suc n)
  show ?case
  proof (cases "copy_assign_at T p q h")
    case (Inl e)
    with Suc.prems show ?thesis by (simp add: modifies_refl)
  next
    case (Inr h1)
    with Suc.prems have "copy_n T (ptr_add p 1) n (ptr_add q 1) h1 = (r, h')" by simp
    from Suc.IH[OF this] have "modifies {fst q} h1 h'" by (simp add: ptr_add_fst)
    with copy_assign_at_modifies[OF Inr] show ?thesis by (rule modifies_trans)
  qed
qed

lemma move_n_modifies: "move_n T p n q h = (r, h') \<Longrightarrow> modifies {fst p, fst q} h h'"
proof (induction n arbitrary: p q h)
  case 0
  then show ?case by (simp add: modifies_refl)
next
  case (Suc n)
  show ?case
  proof (cases "move_assign_at T p q h")
    case (Inl e)
    with Suc.prems show ?thesis by (simp add: modifies_refl)
  next
    case (Inr h1)
    with Suc.prems have "move_n T (ptr_add p 1) n (ptr_add q 1) h1 = (r, h')" by simp
    from Suc.IH[OF this] have "modifies {fst p, fst q} h1 h'" by (simp add: ptr_add_fst)
    with move_assign_at_modifies[OF Inr] show ?thesis by (rule modifies_trans)
  qed
qed

text \<open>A relocation that succeeds had room for its objects in the destination block.\<close>

lemma uninitialized_copy_n_range:
  "uninitialized_copy_n T p n q h = (None, h') \<Longrightarrow> 0 < n \<Longrightarrow>
   \<exists>len. layout h (fst q) = Some len \<and> snd q + n \<le> len"
proof (induction n arbitrary: p q h)
  case 0
  then show ?case by simp
next
  case (Suc n)
  from Suc.prems(1) obtain h1 where c: "copy_construct_at T p q h = Inr h1"
    and rec: "uninitialized_copy_n T (ptr_add p 1) n (ptr_add q 1) h1 = (None, h')"
    by (auto split: sum.splits prod.splits option.splits)
  from copy_construct_at_range[OF c] obtain len where
    len: "layout h (fst q) = Some len" "snd q < len" by blast
  show ?case
  proof (cases n)
    case 0
    with len show ?thesis by simp
  next
    case (Suc m)
    with Suc.IH[OF rec] modifies_layout[OF copy_construct_at_modifies[OF c]] len
    show ?thesis by (simp add: ptr_add_fst ptr_add_snd)
  qed
qed

lemma uninitialized_move_n_range:
  "uninitialized_move_n T p n q h = (None, h') \<Longrightarrow> 0 < n \<Longrightarrow>
   \<exists>len. layout h (fst q) = Some len \<and> snd q + n \<le> len"
proof (induction n arbitrary: p q h)
  case 0
  then show ?case by simp
next
  case (Suc n)
  from Suc.prems(1) obtain h1 where c: "move_construct_at T p q h = Inr h1"
    and rec: "uninitialized_move_n T (ptr_add p 1) n (ptr_add q 1) h1 = (None, h')"
    by (auto split: sum.splits prod.splits option.splits)
  from move_construct_at_range[OF c] obtain len where
    len: "layout h (fst q) = Some len" "snd q < len" by blast
  show ?case
  proof (cases n)
    case 0
    with len show ?thesis by simp
  next
    case (Suc m)
    with Suc.IH[OF rec] modifies_layout[OF move_construct_at_modifies[OF c]] len
    show ?thesis by (simp add: ptr_add_fst ptr_add_snd)
  qed
qed

lemma UninitCopyOrMove_range:
  "UninitCopyOrMove T p n q h = (None, h') \<Longrightarrow> 0 < n \<Longrightarrow>
   \<exists>len. layout h (fst q) = Some len \<and> snd q + n \<le> len"
  by (auto simp: UninitCopyOrMove_def split: if_splits
      dest: uninitialized_move_n_range uninitialized_copy_n_range)

subsection \<open>Allocation\<close>

lemma block_of_with_new_block:
  "block_of (with_new_block n h) b =
     (if b = Suc (allocated h) then Some (replicate n None) else block_of h b)"
  by (auto simp: block_of_def with_new_block_def)

lemma allocated_with_new_block: "allocated (with_new_block n h) = Suc (allocated h)"
  by (simp add: with_new_block_def)

lemma layout_with_new_block: "layout (with_new_block n h) (Suc (allocated h)) = Some n"
  by (simp add: layout_def block_of_with_new_block)

text \<open>
  The block that \<^verbatim>\<open>Allocate(n)\<close> returns has at most \<open>n\<close> slots, and fewer than
  \<open>2 ^ 64\<close>.
\<close>

lemma slots_allocated: "size_mul n sz div sz \<le> n \<and> size_mul n sz div sz < size_max"
proof
  have "size_mul n sz \<le> n * sz" by (simp add: size_mul_def)
  then have "size_mul n sz div sz \<le> n * sz div sz" by (rule div_le_mono)
  then show "size_mul n sz div sz \<le> n" by (cases "sz = 0") simp_all
  have "size_mul n sz < size_max" by (simp add: size_mul_def size_max_def)
  with div_le_dividend[of "size_mul n sz" sz] show "size_mul n sz div sz < size_max"
    by (rule le_less_trans)
qed

lemma slots_allocated_exact:
  "0 < sz \<Longrightarrow> n * sz < size_max \<Longrightarrow> size_mul n sz div sz = n"
  by (simp add: size_mul_def)

lemma RawMemory_ctor_cases:
  "RawMemory_ctor sz n h = (r, h') \<Longrightarrow>
     (case r of
        Inl e \<Rightarrow> e = AllocationFailure \<and> h' = h \<and> n \<noteq> 0
      | Inr m \<Rightarrow> capacity_m m = n \<and>
          (if n = 0 then m = RawMemory_default \<and> h' = h
           else buffer_m m = (Suc (allocated h), 0) \<and>
                h' = with_new_block (size_mul n sz div sz) h))"
  by (auto simp: RawMemory_ctor_def Allocate_def operator_new_def RawMemory_default_def
      split: if_splits)

lemma RawMemory_ctor_pos:
  "0 < n \<Longrightarrow> RawMemory_ctor sz n h =
     (if limit h < size_mul n sz then (Inl AllocationFailure, h)
      else (Inr \<lparr>buffer_m = (Suc (allocated h), 0), capacity_m = n\<rparr>,
            with_new_block (size_mul n sz div sz) h))"
  by (simp add: RawMemory_ctor_def Allocate_def operator_new_def)

lemma RawMemory_ctor_0: "RawMemory_ctor sz 0 h = (Inr RawMemory_default, h)"
  by (simp add: RawMemory_ctor_def Allocate_def RawMemory_default_def)

lemma block_of_Deallocate:
  "block_of (Deallocate p h) b = (if p \<noteq> nullptr \<and> b = fst p then None else block_of h b)"
  by (auto simp: block_of_def Deallocate_def)

text \<open>Releasing the block that was allocated last gives back the blocks there were.\<close>

lemma block_of_release_new:
  assumes "\<And>b. b \<noteq> Suc (allocated h) \<Longrightarrow> block_of g b = block_of h b"
  shows "block_of (RawMemory_dtor \<lparr>buffer_m = (Suc (allocated h), 0), capacity_m = n\<rparr> g) = block_of h"
proof
  fix b
  show "block_of (RawMemory_dtor \<lparr>buffer_m = (Suc (allocated h), 0), capacity_m = n\<rparr> g) b = block_of h b"
    using assms[of b]
    by (auto simp: RawMemory_dtor_def block_of_Deallocate nullptr_def) (simp add: block_of_def)
qed

section \<open>What each operation does to the two sizes\<close>

lemma size_add_small: "a + b < size_max \<Longrightarrow> size_add a b = a + b"
  by (simp add: size_add_def)

lemma size_add_le: "size_add a b \<le> a + b"
  by (simp add: size_add_def)

lemma size_mul_small: "a * b < size_max \<Longrightarrow> size_mul a b = a * b"
  by (simp add: size_mul_def)

lemma size_sub_small: "b \<le> a \<Longrightarrow> size_sub a b = a - b"
  by (simp add: size_sub_def)

text \<open>A doubled size that wrapped around is smaller than the size.\<close>

lemma doubled_no_wrap:
  assumes "s < size_mul s 2"
  shows "size_mul s 2 = 2 * s"
proof (cases "s * 2 < size_max")
  case True
  then show ?thesis by (simp add: size_mul_def)
next
  case False
  then have ge: "size_max \<le> s * 2" by simp
  have pos: "0 < size_max" by (simp add: size_max_def)
  have "(s * 2) mod size_max = (s * 2 - size_max) mod size_max"
    using ge by (rule le_mod_geq)
  also have "\<dots> \<le> s * 2 - size_max" by (rule mod_less_eq_dividend)
  finally have a: "size_mul s 2 \<le> s * 2 - size_max" by (simp add: size_mul_def)
  have b: "size_mul s 2 < size_max" using pos by (simp add: size_mul_def)
  from a b assms ge show ?thesis by arith
qed

lemma Reserve_shape:
  assumes "Reserve T n (v, h) = (r, v', h')"
  shows "size_m v' = size_m v \<and>
         ((data_m v' = data_m v \<and> (r = None \<longrightarrow> n \<le> capacity_m (data_m v))) \<or>
          (r = None \<and> capacity_m (data_m v) < n \<and> capacity_m (data_m v') = n))"
  using assms
  by (auto simp: Reserve_def RawMemory_Capacity_def RawMemory_Swap_def
      split: if_splits prod.splits sum.splits option.splits
      dest!: RawMemory_ctor_cases)

lemma Resize_shape:
  assumes "Resize T n (v, h) = (r, v', h')"
  shows "capacity_m (data_m v) \<le> capacity_m (data_m v') \<and>
         (size_m v' = size_m v \<or> (r = None \<and> size_m v' = n \<and> n \<le> capacity_m (data_m v')))"
  using assms
  by (auto simp: Resize_def RawMemory_Capacity_def
      split: if_splits prod.splits sum.splits option.splits
      dest!: Reserve_shape)

lemma PopBack_shape:
  assumes "PopBack (v, h) = (r, v', h')"
  shows "data_m v' = data_m v \<and> size_m v' \<le> size_m v \<and>
         (r = None \<longrightarrow> 0 < size_m v \<and> size_m v' = size_m v - 1)"
  using assms
  by (auto simp: PopBack_def split: if_splits sum.splits)

lemma Erase_shape:
  assumes "Erase T pos (v, h) = (r, v', h')"
  shows "data_m v' = data_m v \<and> size_m v' \<le> size_m v"
  using assms
  by (auto simp: Erase_def split: if_splits sum.splits prod.splits option.splits
      dest!: PopBack_shape)

lemma Emplace_grow_shape:
  assumes "Emplace_grow T pos indent a (v, h) = (r, v', h')"
  shows "(case r of
            Some e \<Rightarrow> v' = v
          | None \<Rightarrow>
              size_m v' = size_add (size_m v) 1 \<and>
              capacity_m (data_m v') = (if size_m v = 0 then 1 else size_mul (size_m v) 2))"
  using assms
  by (auto simp: Emplace_grow_def RawMemory_Swap_def
      split: if_splits prod.splits sum.splits option.splits
      dest!: RawMemory_ctor_cases)

lemma Emplace_shift_shape:
  assumes "Emplace_shift T place a (v, h) = (r, v', h')"
  shows "(case r of
            Some e \<Rightarrow> v' = v
          | None \<Rightarrow> v' = v\<lparr>size_m := size_add (size_m v) 1\<rparr>)"
  using assms
  by (auto simp: Emplace_shift_def
      split: if_splits prod.splits sum.splits option.splits)

lemma Emplace_at_end_shape:
  assumes "Emplace_at_end T place a (v, h) = (r, v', h')"
  shows "(case r of
            Some e \<Rightarrow> v' = v
          | None \<Rightarrow> v' = v\<lparr>size_m := size_add (size_m v) 1\<rparr>)"
  using assms
  by (auto simp: Emplace_at_end_def
      split: if_splits prod.splits sum.splits option.splits)

lemma Emplace_in_place_shape:
  assumes "Emplace_in_place T pos indent a (v, h) = (r, v', h')"
  shows "(case r of
            Some e \<Rightarrow> v' = v
          | None \<Rightarrow> v' = v\<lparr>size_m := size_add (size_m v) 1\<rparr>)"
  using assms
  by (auto simp: Emplace_in_place_def split: sum.splits if_splits
      dest!: Emplace_shift_shape Emplace_at_end_shape)

text \<open>
  The first branch of \<^verbatim>\<open>Emplace\<close>, when it returns: every old element and the new one
  were constructed in the new block, so the block has a slot for each of them; it has
  no more slots than the new capacity, and fewer than \<open>2 ^ 64\<close>.
\<close>

lemma Emplace_grow_room:
  assumes inv: "size_m v \<le> capacity_m (data_m v)"
    and dist: "distance (begin_it v) pos = Inr indent"
    and run: "Emplace_grow T pos indent a (v, h) = (None, v', h')"
  shows "\<exists>k. Suc (size_m v) \<le> k \<and> k \<le> capacity_m (data_m v') \<and> k < size_max \<and>
           k = size_mul (capacity_m (data_m v')) (sizeof T) div sizeof T \<and>
           capacity_m (data_m v') = (if size_m v = 0 then 1 else size_mul (size_m v) 2) \<and>
           size_m v' = Suc (size_m v)"
proof -
  define c where "c = (if size_m v = 0 then 1 else size_mul (size_m v) 2)"
  define k where "k = size_mul c (sizeof T) div sizeof T"
  define b' where "b' = Suc (allocated h)"
  from run dist obtain mem h1 place h2 h3 cend n_after to h4 where
    ctor: "RawMemory_ctor (sizeof T) c h = (Inr mem, h1)"
    and pl: "RawMemory_plus mem indent = Inr place"
    and u1: "UninitCopyOrMove T (GetAddress (data_m v)) indent (GetAddress mem) h1 = (None, h2)"
    and ce: "ConstructElement T place a h2 = Inr h3"
    and en: "end_it v = Inr cend"
    and d2: "distance pos cend = Inr n_after"
    and pl2: "RawMemory_plus mem (size_add indent 1) = Inr to"
    and u2: "UninitCopyOrMove T pos n_after to h3 = (None, h4)"
    by (auto simp: Emplace_grow_def c_def split: prod.splits sum.splits option.splits)
  from pl have place: "place = ptr_add (buffer_m mem) indent"
    by (simp add: RawMemory_plus_def split: if_splits)
  from pl2 have to: "to = ptr_add (buffer_m mem) (size_add indent 1)"
    by (simp add: RawMemory_plus_def split: if_splits)
  note l2 = modifies_layout[OF UninitCopyOrMove_modifies[OF u1]]
  from ConstructElement_layout[OF ce] obtain n where
    l3: "layout h3 = layout h2" and n: "layout h2 (fst place) = Some n" "snd place < n"
    by blast
  have c0: "c \<noteq> 0"
  proof
    assume "c = 0"
    with RawMemory_ctor_cases[OF ctor] have "mem = RawMemory_default" "h1 = h" by simp_all
    with place have "fst place = 0"
      by (simp add: RawMemory_default_def nullptr_def ptr_add_def)
    with n(1) show False by (simp add: layout_null)
  qed
  with RawMemory_ctor_cases[OF ctor] have mem: "buffer_m mem = (b', 0)" "capacity_m mem = c"
    and h1: "h1 = with_new_block k h"
    by (simp_all add: k_def b'_def)
  have l1: "layout h1 b' = Some k"
    by (simp add: h1 b'_def layout_with_new_block)
  from n place mem l1 l2 have ik: "indent < k"
    by (simp add: ptr_add_def)
  from slots_allocated[of c "sizeof T"] have k: "k \<le> c" "k < size_max"
    by (simp_all add: k_def)
  from ik k have sa: "size_add indent 1 = Suc indent"
    by (simp add: size_add_small)
  from en inv have "snd cend = snd (buffer_m (data_m v)) + size_m v"
    by (auto simp: end_it_def RawMemory_plus_def ptr_add_def)
  moreover from dist have "snd (buffer_m (data_m v)) \<le> snd pos"
    "indent = snd pos - snd (buffer_m (data_m v))"
    by (auto simp: distance_def begin_it_def GetAddress_def split: if_splits)
  moreover from d2 have "snd pos \<le> snd cend" "n_after = snd cend - snd pos"
    by (auto simp: distance_def split: if_splits)
  ultimately have sum: "indent + n_after = size_m v"
    by arith
  have room: "Suc (size_m v) \<le> k"
  proof (cases "n_after = 0")
    case True
    with sum ik show ?thesis by simp
  next
    case False
    then have "0 < n_after" by simp
    from UninitCopyOrMove_range[OF u2 this] to mem sa l3 l2 l1
    have "Suc indent + n_after \<le> k"
      by (simp add: ptr_add_def)
    with sum show ?thesis by simp
  qed
  from Emplace_grow_shape[OF run] have v': "size_m v' = size_add (size_m v) 1"
    "capacity_m (data_m v') = c"
    by (simp_all add: c_def)
  from room k have "size_add (size_m v) 1 = Suc (size_m v)"
    by (simp add: size_add_small)
  with v' room k show ?thesis
    by (intro exI[of _ k]) (simp add: k_def c_def)
qed

lemma Vector_sized_shape:
  assumes "Vector_sized T n h = (Inr v', h')"
  shows "size_m v' = n \<and> capacity_m (data_m v') = n"
  using assms
  by (auto simp: Vector_sized_def split: prod.splits sum.splits option.splits
      dest!: RawMemory_ctor_cases)

lemma Vector_copy_shape:
  assumes "Vector_copy T other h = (Inr v', h')"
  shows "size_m v' = size_m other \<and> capacity_m (data_m v') = size_m other"
  using assms
  by (auto simp: Vector_copy_def split: prod.splits sum.splits option.splits
      dest!: RawMemory_ctor_cases)

lemma assign_in_place_shape:
  assumes "assign_in_place T rhs (v, h) = (r, v', h')"
  shows "data_m v' = data_m v \<and> (size_m v' = size_m v \<or> size_m v' = size_m rhs)"
  using assms
  by (auto simp: assign_in_place_def split: prod.splits sum.splits option.splits if_splits)

lemma assign_by_copy_shape:
  assumes "assign_by_copy T rhs (v, h) = (r, v', h')"
  shows "v' = v \<or> (size_m v' = size_m rhs \<and> capacity_m (data_m v') = size_m rhs)"
proof (cases "Vector_copy T rhs h")
  case (Pair c h1)
  show ?thesis
  proof (cases c)
    case (Inl e)
    with assms Pair show ?thesis by (simp add: assign_by_copy_def)
  next
    case (Inr rhs_copy)
    with Pair have "Vector_copy T rhs h = (Inr rhs_copy, h1)" by simp
    note sh = Vector_copy_shape[OF this]
    with assms Pair Inr show ?thesis
      by (auto simp: assign_by_copy_def Vector_Swap_def RawMemory_Swap_def
          split: sum.splits)
  qed
qed

subsection \<open>The invariant\<close>

lemma copy_assignment_size_inv:
  assumes "size_inv v" "copy_assignment T rhs (v, h) = (r, v', h')"
  shows "size_inv v'"
  using assms
  by (auto simp: copy_assignment_def size_inv_def Capacity_def RawMemory_Capacity_def
      split: rhs_ref.splits if_splits
      dest!: assign_in_place_shape assign_by_copy_shape)

lemma Vector_Swap_size_inv:
  assumes "size_inv v" "size_inv other"
  shows "size_inv (fst (Vector_Swap v other)) \<and> size_inv (snd (Vector_Swap v other))"
  using assms by (simp add: size_inv_def Vector_Swap_def RawMemory_Swap_def)

lemma Vector_default_size_inv: "size_inv Vector_default"
  by (simp add: size_inv_def Vector_default_def RawMemory_default_def)

lemma Vector_move_size_inv:
  assumes "size_inv other"
  shows "size_inv (fst (Vector_move other)) \<and> size_inv (snd (Vector_move other))"
  unfolding Vector_move_def
  using assms by (intro Vector_Swap_size_inv Vector_default_size_inv)

lemma Vector_sized_size_inv: "Vector_sized T n h = (Inr v', h') \<Longrightarrow> size_inv v'"
  by (auto simp: size_inv_def dest!: Vector_sized_shape)

lemma Vector_copy_size_inv: "Vector_copy T other h = (Inr v', h') \<Longrightarrow> size_inv v'"
  by (auto simp: size_inv_def dest!: Vector_copy_shape)

lemma Reserve_size_inv:
  "size_inv v \<Longrightarrow> Reserve T n (v, h) = (r, v', h') \<Longrightarrow> size_inv v'"
  by (auto simp: size_inv_def dest!: Reserve_shape)

lemma Resize_size_inv:
  "size_inv v \<Longrightarrow> Resize T n (v, h) = (r, v', h') \<Longrightarrow> size_inv v'"
  by (auto simp: size_inv_def dest!: Resize_shape)

text \<open>
  What \<^verbatim>\<open>Emplace\<close> does to the two sizes: nothing when it throws; otherwise the size
  grows by one (modulo \<open>2 ^ 64\<close>) and either the first branch ran, on a full container,
  and the new capacity has room for the new size, or the buffer is the old one.
\<close>

lemma Emplace_sizes:
  assumes inv: "size_inv v" and run: "Emplace T pos a (v, h) = (r, v', h')"
  shows "(case r of
            Inl e \<Rightarrow> v' = v
          | Inr p \<Rightarrow>
              size_m v' = size_add (size_m v) 1 \<and>
              (if capacity_m (data_m v) < size_add (size_m v) 1 \<or> capacity_m (data_m v) = size_m v
               then capacity_m (data_m v) = size_m v \<and> size_m v' = Suc (size_m v) \<and>
                    Suc (size_m v) \<le> capacity_m (data_m v') \<and>
                    capacity_m (data_m v') = (if size_m v = 0 then 1 else size_mul (size_m v) 2)
               else data_m v' = data_m v \<and> size_m v' \<le> capacity_m (data_m v)))"
proof (cases "distance (begin_it v) pos")
  case (Inl e)
  with run show ?thesis by (auto simp: Emplace_def)
next
  case (Inr indent)
  from inv have le: "size_m v \<le> capacity_m (data_m v)" by (simp add: size_inv_def)
  show ?thesis
  proof (cases "capacity_m (data_m v) < size_add (size_m v) 1 \<or> capacity_m (data_m v) = size_m v")
    case True
    with le size_add_le[of "size_m v" 1] have full: "capacity_m (data_m v) = size_m v" by arith
    obtain r1 v1 h1 where g: "Emplace_grow T pos indent a (v, h) = (r1, v1, h1)"
      by (cases "Emplace_grow T pos indent a (v, h)") auto
    show ?thesis
    proof (cases r1)
      case (Some e)
      with Emplace_grow_shape[OF g] run Inr True g show ?thesis
        by (auto simp: Emplace_def RawMemory_Capacity_def)
    next
      case None
      with run Inr True g have out: "r = Inr (ptr_add (GetAddress (data_m v')) indent)"
        "v1 = v'" "h1 = h'"
        by (auto simp: Emplace_def RawMemory_Capacity_def)
      from Emplace_grow_room[OF le Inr g[unfolded None out(2,3)]] obtain k where
        "Suc (size_m v) \<le> k" "k \<le> capacity_m (data_m v')" "k < size_max"
        "capacity_m (data_m v') = (if size_m v = 0 then 1 else size_mul (size_m v) 2)"
        "size_m v' = Suc (size_m v)"
        by blast
      with True full out(1) show ?thesis
        by (simp add: size_add_small)
    qed
  next
    case False
    obtain r1 v1 h1 where g: "Emplace_in_place T pos indent a (v, h) = (r1, v1, h1)"
      by (cases "Emplace_in_place T pos indent a (v, h)") auto
    from Emplace_in_place_shape[OF g] run Inr False g show ?thesis
      by (auto simp: Emplace_def RawMemory_Capacity_def split: option.splits)
  qed
qed

lemma Emplace_size_inv:
  assumes "size_inv v" "Emplace T pos a (v, h) = (r, v', h')"
  shows "size_inv v'"
  using Emplace_sizes[OF assms] assms(1)
  by (auto simp: size_inv_def split: sum.splits if_splits)

lemma EmplaceBack_size_inv:
  "size_inv v \<Longrightarrow> EmplaceBack T a (v, h) = (r, v', h') \<Longrightarrow> size_inv v'"
  by (auto simp: EmplaceBack_def split: sum.splits dest: Emplace_size_inv)

lemma Insert_copy_size_inv:
  "size_inv v \<Longrightarrow> Insert_copy T pos x (v, h) = (r, v', h') \<Longrightarrow> size_inv v'"
  unfolding Insert_copy_def by (rule Emplace_size_inv)

lemma Insert_move_size_inv:
  "size_inv v \<Longrightarrow> Insert_move T pos x (v, h) = (r, v', h') \<Longrightarrow> size_inv v'"
  unfolding Insert_move_def by (rule Emplace_size_inv)

lemma PushBack_copy_size_inv:
  "size_inv v \<Longrightarrow> PushBack_copy T x (v, h) = (r, v', h') \<Longrightarrow> size_inv v'"
  by (auto simp: PushBack_copy_def drop_result_def split: sum.splits prod.splits
      dest: EmplaceBack_size_inv)

lemma PushBack_move_size_inv:
  "size_inv v \<Longrightarrow> PushBack_move T x (v, h) = (r, v', h') \<Longrightarrow> size_inv v'"
  by (auto simp: PushBack_move_def drop_result_def split: sum.splits prod.splits
      dest: EmplaceBack_size_inv)

lemma Erase_size_inv:
  "size_inv v \<Longrightarrow> Erase T pos (v, h) = (r, v', h') \<Longrightarrow> size_inv v'"
  by (auto simp: size_inv_def dest!: Erase_shape)

lemma PopBack_size_inv:
  "size_inv v \<Longrightarrow> PopBack (v, h) = (r, v', h') \<Longrightarrow> size_inv v'"
  by (auto simp: size_inv_def dest!: PopBack_shape)

lemma PushBack_size_inv:
  assumes "size_inv v" "PushBack T p (v, h) = (r, v', h')"
  shows "size_inv v'"
proof (cases p)
  case (ByCopy x)
  with assms(2) have "PushBack_copy T x (v, h) = (r, v', h')" by simp
  from PushBack_copy_size_inv[OF assms(1) this] show ?thesis .
next
  case (ByMove x)
  with assms(2) have "PushBack_move T x (v, h) = (r, v', h')" by simp
  from PushBack_move_size_inv[OF assms(1) this] show ?thesis .
qed

lemma run_call_size_inv:
  assumes "size_inv v" "run_call T c (v, h) = (r, v', h')"
  shows "size_inv v'"
proof (cases c)
  case (PushBackCall p)
  with assms(2) have "PushBack T p (v, h) = (r, v', h')" by simp
  from PushBack_size_inv[OF assms(1) this] show ?thesis .
next
  case (ReserveCall n)
  with assms(2) have "Reserve T n (v, h) = (r, v', h')" by simp
  from Reserve_size_inv[OF assms(1) this] show ?thesis .
next
  case (ResizeCall n)
  with assms(2) have "Resize T n (v, h) = (r, v', h')" by simp
  from Resize_size_inv[OF assms(1) this] show ?thesis .
qed

subsection \<open>The capacity\<close>

lemma Emplace_capacity:
  assumes inv: "size_inv v" and run: "Emplace T pos a (v, h) = (r, v', h')"
  shows "Capacity v \<le> Capacity v' \<and>
         (Size v = Capacity v \<longrightarrow> (\<exists>p. r = Inr p) \<longrightarrow> Capacity v' = max 1 (2 * Capacity v))"
proof (cases r)
  case (Inl e)
  with Emplace_sizes[OF inv run] show ?thesis by simp
next
  case (Inr p)
  show ?thesis
  proof (cases "capacity_m (data_m v) < size_add (size_m v) 1 \<or> capacity_m (data_m v) = size_m v")
    case True
    with Emplace_sizes[OF inv run] Inr have full: "capacity_m (data_m v) = size_m v"
      and room: "Suc (size_m v) \<le> capacity_m (data_m v')"
      and cap: "capacity_m (data_m v') = (if size_m v = 0 then 1 else size_mul (size_m v) 2)"
      by simp_all
    have "capacity_m (data_m v') = max 1 (2 * size_m v)"
    proof (cases "size_m v = 0")
      case True
      with cap show ?thesis by simp
    next
      case False
      with cap room have "size_m v < size_mul (size_m v) 2" by simp
      from doubled_no_wrap[OF this] cap False show ?thesis by simp
    qed
    with full room show ?thesis
      by (simp add: Capacity_def Size_def RawMemory_Capacity_def)
  next
    case False
    with Emplace_sizes[OF inv run] Inr have "data_m v' = data_m v" by simp
    with False show ?thesis
      by (simp add: Capacity_def Size_def RawMemory_Capacity_def)
  qed
qed

lemma EmplaceBack_capacity:
  assumes "size_inv v" "EmplaceBack T a (v, h) = (r, v', h')"
  shows "Capacity v \<le> Capacity v' \<and>
         (Size v = Capacity v \<longrightarrow> (\<exists>p. r = Inr p) \<longrightarrow> Capacity v' = max 1 (2 * Capacity v))"
proof (cases "end_it v")
  case (Inl e)
  with assms(2) have "v' = v" "r = Inl e" by (simp_all add: EmplaceBack_def)
  then show ?thesis by simp
next
  case (Inr e)
  with assms(2) have "Emplace T e a (v, h) = (r, v', h')" by (simp add: EmplaceBack_def)
  from Emplace_capacity[OF assms(1) this] show ?thesis .
qed

lemma PushBack_capacity:
  assumes "size_inv v" "PushBack T p (v, h) = (r, v', h')"
  shows "Capacity v \<le> Capacity v' \<and>
         (Size v = Capacity v \<longrightarrow> r = None \<longrightarrow> Capacity v' = max 1 (2 * Capacity v))"
proof (cases p)
  case (ByCopy x)
  with assms(2) obtain r1 where "EmplaceBack T (Lvalue x) (v, h) = (r1, v', h')"
    and "r = (case r1 of Inl e \<Rightarrow> Some e | Inr q \<Rightarrow> None)"
    by (auto simp: PushBack_copy_def drop_result_def split: prod.splits sum.splits)
  with EmplaceBack_capacity[OF assms(1) this(1)] show ?thesis
    by (auto split: sum.splits)
next
  case (ByMove x)
  with assms(2) obtain r1 where "EmplaceBack T (Rvalue x) (v, h) = (r1, v', h')"
    and "r = (case r1 of Inl e \<Rightarrow> Some e | Inr q \<Rightarrow> None)"
    by (auto simp: PushBack_move_def drop_result_def split: prod.splits sum.splits)
  with EmplaceBack_capacity[OF assms(1) this(1)] show ?thesis
    by (auto split: sum.splits)
qed

lemma call_capacity:
  assumes "size_inv v" "run_call T c (v, h) = (r, v', h')"
  shows "Capacity v \<le> Capacity v'"
proof (cases c)
  case (PushBackCall p)
  with assms PushBack_capacity[of v T p h r v' h'] show ?thesis by simp
next
  case (ReserveCall n)
  with assms(2) have "Reserve T n (v, h) = (r, v', h')" by simp
  from Reserve_shape[OF this] show ?thesis
    by (auto simp: Capacity_def RawMemory_Capacity_def)
next
  case (ResizeCall n)
  with assms(2) have "Resize T n (v, h) = (r, v', h')" by simp
  from Resize_shape[OF this] show ?thesis
    by (auto simp: Capacity_def RawMemory_Capacity_def)
qed

lemma calls_capacity:
  "size_inv v \<Longrightarrow> run_calls T cs (v, h) = (r, v', h') \<Longrightarrow> Capacity v \<le> Capacity v'"
proof (induction cs arbitrary: v h)
  case Nil
  then show ?case by simp
next
  case (Cons c cs)
  obtain r1 v1 h1 where c: "run_call T c (v, h) = (r1, v1, h1)"
    by (cases "run_call T c (v, h)") auto
  note inv = run_call_size_inv[OF Cons.prems(1) c]
  note cap = call_capacity[OF Cons.prems(1) c]
  show ?case
  proof (cases r1)
    case None
    with Cons.prems(2) c have "run_calls T cs (v1, h1) = (r, v', h')" by simp
    from Cons.IH[OF inv this] cap show ?thesis by simp
  next
    case (Some e)
    with Cons.prems(2) c cap show ?thesis by simp
  qed
qed

subsection \<open>Evaluation\<close>

lemmas model_defs = nullptr_def ptr_add_def ptr_sub_def distance_def size_max_def size_add_def
  size_mul_def size_sub_def block_of_def set_block_def read_slot_def write_slot_def
  RawMemory_default_def with_new_block_def operator_new_def Allocate_def Deallocate_def
  RawMemory_ctor_def RawMemory_dtor_def
  RawMemory_Swap_def RawMemory_plus_def RawMemory_index_def GetAddress_def RawMemory_Capacity_def
  placement_new_def ConstructElement_def Destroy_def copy_construct_at_def move_construct_at_def
  copy_assign_at_def
  move_assign_at_def move_assign_from_def std_move_def move_backward_def Vector_default_def
  Size_def Capacity_def begin_it_def end_it_def Vector_sized_def Vector_copy_def Vector_Swap_def
  Vector_move_def Vector_dtor_def UninitCopyOrMove_def assign_in_place_def assign_by_copy_def
  copy_assignment_def move_assignment_def Reserve_def Resize_def Emplace_grow_def
  Emplace_shift_def Emplace_at_end_def ptr_less_def Emplace_in_place_def Emplace_def
  EmplaceBack_def drop_result_def PushBack_copy_def PushBack_move_def
  Insert_copy_def Insert_move_def PopBack_def deduce_InputIt_def Erase_compiles_def Erase_def
  Vector_index_def at_def elements_def
  int_type_def throwing_type_def resetting_type_def empty_heap_def

lemmas example_defs = heap_123_def vec_123_def heap_99_def vec_99_def heap_12_def vec_12_def

lemma replicate_unfold: "replicate n x = (if n = 0 then [] else x # replicate (n - 1) x)"
  by (cases n) simp_all

lemma destroy_n_unfold:
  "destroy_n first n h =
     (if n = 0 then Inr h
      else (case Destroy first h of
              Inl e \<Rightarrow> Inl e
            | Inr h1 \<Rightarrow> destroy_n (ptr_add first 1) (n - 1) h1))"
  by (cases n) (simp_all cong: sum.case_cong prod.case_cong option.case_cong)

lemma uninitialized_value_construct_n_unfold:
  "uninitialized_value_construct_n T first n h =
     (if n = 0 then (None, h)
      else (case placement_new first (value_init T) h of
              Inl e \<Rightarrow> (Some e, h)
            | Inr h1 \<Rightarrow>
                (case uninitialized_value_construct_n T (ptr_add first 1) (n - 1) h1 of
                   (None, h2) \<Rightarrow> (None, h2)
                 | (Some e, h2) \<Rightarrow>
                     (case Destroy first h2 of
                        Inl e' \<Rightarrow> (Some e', h2)
                      | Inr h3 \<Rightarrow> (Some e, h3)))))"
  by (cases n) (simp_all cong: sum.case_cong prod.case_cong option.case_cong)

lemma uninitialized_copy_n_unfold:
  "uninitialized_copy_n T first n d_first h =
     (if n = 0 then (None, h)
      else (case copy_construct_at T first d_first h of
              Inl e \<Rightarrow> (Some e, h)
            | Inr h1 \<Rightarrow>
                (case uninitialized_copy_n T (ptr_add first 1) (n - 1) (ptr_add d_first 1) h1 of
                   (None, h2) \<Rightarrow> (None, h2)
                 | (Some e, h2) \<Rightarrow>
                     (case Destroy d_first h2 of
                        Inl e' \<Rightarrow> (Some e', h2)
                      | Inr h3 \<Rightarrow> (Some e, h3)))))"
  by (cases n) (simp_all cong: sum.case_cong prod.case_cong option.case_cong)

lemma uninitialized_move_n_unfold:
  "uninitialized_move_n T first n d_first h =
     (if n = 0 then (None, h)
      else (case move_construct_at T first d_first h of
              Inl e \<Rightarrow> (Some e, h)
            | Inr h1 \<Rightarrow>
                (case uninitialized_move_n T (ptr_add first 1) (n - 1) (ptr_add d_first 1) h1 of
                   (None, h2) \<Rightarrow> (None, h2)
                 | (Some e, h2) \<Rightarrow>
                     (case Destroy d_first h2 of
                        Inl e' \<Rightarrow> (Some e', h2)
                      | Inr h3 \<Rightarrow> (Some e, h3)))))"
  by (cases n) (simp_all cong: sum.case_cong prod.case_cong option.case_cong)

lemma copy_n_unfold:
  "copy_n T first n result h =
     (if n = 0 then (None, h)
      else (case copy_assign_at T first result h of
              Inl e \<Rightarrow> (Some e, h)
            | Inr h1 \<Rightarrow> copy_n T (ptr_add first 1) (n - 1) (ptr_add result 1) h1))"
  by (cases n) (simp_all cong: sum.case_cong prod.case_cong option.case_cong)

lemma move_n_unfold:
  "move_n T first n d_first h =
     (if n = 0 then (None, h)
      else (case move_assign_at T first d_first h of
              Inl e \<Rightarrow> (Some e, h)
            | Inr h1 \<Rightarrow> move_n T (ptr_add first 1) (n - 1) (ptr_add d_first 1) h1))"
  by (cases n) (simp_all cong: sum.case_cong prod.case_cong option.case_cong)

lemma move_backward_n_unfold:
  "move_backward_n T first n d_last h =
     (if n = 0 then (None, h)
      else (case ptr_sub d_last 1 of
              Inl e \<Rightarrow> (Some e, h)
            | Inr d \<Rightarrow>
                (case move_assign_at T (ptr_add first (n - 1)) d h of
                   Inl e \<Rightarrow> (Some e, h)
                 | Inr h1 \<Rightarrow> move_backward_n T first (n - 1) d h1)))"
  by (cases n) (simp_all cong: sum.case_cong prod.case_cong option.case_cong)

lemmas loop_unfolds = destroy_n_unfold uninitialized_value_construct_n_unfold
  uninitialized_copy_n_unfold uninitialized_move_n_unfold copy_n_unfold move_n_unfold
  move_backward_n_unfold

section \<open>Ranges of slots in a block\<close>

lemma slice_0: "slice i 0 xs = []"
  by (simp add: slice_def)

lemma slice_Suc: "i < length xs \<Longrightarrow> slice i (Suc n) xs = xs ! i # slice (Suc i) n xs"
  by (simp add: slice_def Cons_nth_drop_Suc[symmetric])

lemma length_slice: "i + n \<le> length xs \<Longrightarrow> length (slice i n xs) = n"
  by (simp add: slice_def)

lemma slice_snoc: "i + n < length xs \<Longrightarrow> slice i (Suc n) xs = slice i n xs @ [xs ! (i + n)]"
  by (simp add: slice_def take_Suc_conv_app_nth)

lemma nth_slice: "k < n \<Longrightarrow> i + n \<le> length xs \<Longrightarrow> slice i n xs ! k = xs ! (i + k)"
  by (simp add: slice_def)

lemma slice_update_outside:
  "k < i \<or> i + n \<le> k \<Longrightarrow> slice i n (xs[k := a]) = slice i n xs"
  by (auto simp: slice_def drop_update_cancel take_update_cancel
      drop_update_swap)

lemma slice_all: "slice 0 (length xs) xs = xs"
  by (simp add: slice_def)

lemma overwrite_Nil: "overwrite j [] xs = xs"
  by (simp add: overwrite_def)

lemma length_overwrite: "j + length ys \<le> length xs \<Longrightarrow> length (overwrite j ys xs) = length xs"
  by (simp add: overwrite_def)

lemma overwrite_Cons:
  "j < length xs \<Longrightarrow> overwrite (Suc j) ys (xs[j := y]) = overwrite j (y # ys) xs"
  by (simp add: overwrite_def take_Suc_conv_app_nth drop_update_cancel)

lemma overwrite_snoc:
  "j + length ys < length xs \<Longrightarrow>
   overwrite j ys (xs[j + length ys := a]) = overwrite j (ys @ [a]) xs"
  by (simp add: overwrite_def take_update_cancel drop_update_swap
      Cons_nth_drop_Suc[symmetric] flip: upd_conv_take_nth_drop)

lemma overwrite_update_inside:
  "j \<le> k \<Longrightarrow> k < j + length ys \<Longrightarrow> overwrite j ys (xs[k := a]) = overwrite j ys xs"
  by (simp add: overwrite_def take_update_cancel drop_update_cancel)

lemma overwrite_single: "j < length xs \<Longrightarrow> overwrite j [y] xs = xs[j := y]"
  by (simp add: overwrite_def upd_conv_take_nth_drop)

lemma take_overwrite:
  "j + length ys \<le> length xs \<Longrightarrow> take (j + length ys) (overwrite j ys xs) = take j xs @ ys"
  by (simp add: overwrite_def)

lemma nth_overwrite:
  "j + length ys \<le> length xs \<Longrightarrow> k < length xs \<Longrightarrow>
   overwrite j ys xs ! k = (if j \<le> k \<and> k < j + length ys then ys ! (k - j) else xs ! k)"
  by (auto simp: overwrite_def nth_append)

lemma all_less_Suc_shift: "(\<forall>k<Suc n. P k) \<longleftrightarrow> P 0 \<and> (\<forall>k<n. P (Suc k))"
  by (auto simp: less_Suc_eq_0_disj)

section \<open>Single steps and loops on blocks\<close>

lemmas heap_simps = block_of_set_block allocated_set_block set_block_twice

lemma read_slot_at:
  "block_of h b = Some ss \<Longrightarrow> i < length ss \<Longrightarrow> ss ! i = Some x \<Longrightarrow> read_slot h (b, i) = Inr x"
  by (simp add: read_slot_def)

lemma write_slot_at:
  "block_of h b = Some ss \<Longrightarrow> i < length ss \<Longrightarrow>
   write_slot (b, i) s h = Inr (set_block b (ss[i := s]) h)"
  by (simp add: write_slot_def)

lemma block_of_set_block_same:
  "block_of h b = Some ss \<Longrightarrow> block_of (set_block b ss' h) b = Some ss'"
  by (auto simp: block_of_set_block dest: block_of_SomeD)

lemma block_of_set_block_other:
  "b' \<noteq> b \<Longrightarrow> block_of (set_block b ss' h) b' = block_of h b'"
  by (simp add: block_of_set_block)

lemma Destroy_at:
  "block_of h b = Some ss \<Longrightarrow> i < length ss \<Longrightarrow> ss ! i = Some x \<Longrightarrow>
   Destroy (b, i) h = Inr (set_block b (ss[i := None]) h)"
  by (simp add: Destroy_def read_slot_at write_slot_at)

lemma placement_new_at:
  "block_of h b = Some ss \<Longrightarrow> i < length ss \<Longrightarrow>
   placement_new (b, i) (Some x) h = Inr (set_block b (ss[i := Some x]) h)"
  by (simp add: placement_new_def write_slot_at)

lemma ConstructElement_Built:
  "ConstructElement T buf (Built (Some x)) h = write_slot buf (Some x) h"
  by (simp add: ConstructElement_def)

lemma ConstructElement_at:
  "block_of h b = Some ss \<Longrightarrow> i < length ss \<Longrightarrow>
   ConstructElement T (b, i) (Built (Some x)) h = Inr (set_block b (ss[i := Some x]) h)"
  by (simp add: ConstructElement_Built write_slot_at)

lemma copy_construct_at_blocks:
  "block_of h bs = Some ss \<Longrightarrow> i < length ss \<Longrightarrow> ss ! i = Some x \<Longrightarrow>
   block_of h bd = Some sd \<Longrightarrow> j < length sd \<Longrightarrow>
   copy_construct_at T (bs, i) (bd, j) h =
     (case copy_ctor T x of
        None \<Rightarrow> Inl ElementConstructionFailure
      | Some y \<Rightarrow> Inr (set_block bd (sd[j := Some y]) h))"
  by (simp add: copy_construct_at_def read_slot_at placement_new_def write_slot_at
      split: option.splits)

lemma move_construct_at_blocks:
  "block_of h bs = Some ss \<Longrightarrow> i < length ss \<Longrightarrow> ss ! i = Some x \<Longrightarrow>
   block_of h bd = Some sd \<Longrightarrow> j < length sd \<Longrightarrow> bs \<noteq> bd \<Longrightarrow>
   move_construct_at T (bs, i) (bd, j) h =
     (case move_ctor T x of
        None \<Rightarrow> Inl ElementConstructionFailure
      | Some (y, x') \<Rightarrow> Inr (set_block bd (sd[j := Some y]) (set_block bs (ss[i := Some x']) h)))"
  by (simp add: move_construct_at_def read_slot_at write_slot_at block_of_set_block_other
      split: option.splits prod.splits)

lemma move_construct_at_block:
  "block_of h b = Some ss \<Longrightarrow> i < length ss \<Longrightarrow> ss ! i = Some x \<Longrightarrow> j < length ss \<Longrightarrow>
   move_construct_at T (b, i) (b, j) h =
     (case move_ctor T x of
        None \<Rightarrow> Inl ElementConstructionFailure
      | Some (y, x') \<Rightarrow> Inr (set_block b (ss[i := Some x', j := Some y]) h))"
  by (simp add: move_construct_at_def read_slot_at write_slot_at block_of_set_block_same
      set_block_twice split: option.splits prod.splits)

lemma move_assign_at_block:
  "block_of h b = Some ss \<Longrightarrow> i < length ss \<Longrightarrow> ss ! i = Some x \<Longrightarrow>
   j < length ss \<Longrightarrow> ss ! j = Some d \<Longrightarrow>
   move_assign_at T (b, i) (b, j) h =
     (case move_assign T d x of
        None \<Rightarrow> Inl ElementConstructionFailure
      | Some (d', x') \<Rightarrow> Inr (set_block b (ss[i := Some x', j := Some d']) h))"
  by (simp add: move_assign_at_def read_slot_at write_slot_at block_of_set_block_same
      set_block_twice split: option.splits prod.splits)

lemma copy_assign_at_block:
  "block_of h b = Some ss \<Longrightarrow> i < length ss \<Longrightarrow> ss ! i = Some x \<Longrightarrow>
   j < length ss \<Longrightarrow> ss ! j = Some d \<Longrightarrow>
   copy_assign_at T (b, i) (b, j) h =
     (case copy_assign T d x of
        None \<Rightarrow> Inl ElementConstructionFailure
      | Some d' \<Rightarrow> Inr (set_block b (ss[j := Some d']) h))"
  by (simp add: copy_assign_at_def read_slot_at write_slot_at split: option.splits)

lemma move_assign_from_at:
  "block_of h b = Some ss \<Longrightarrow> j < length ss \<Longrightarrow> ss ! j = Some d \<Longrightarrow>
   move_assign_from T buff (b, j) h =
     (case move_assign T d buff of
        None \<Rightarrow> Inl ElementConstructionFailure
      | Some (d', b') \<Rightarrow> Inr (set_block b (ss[j := Some d']) h))"
  by (simp add: move_assign_from_def read_slot_at write_slot_at split: option.splits prod.splits)

lemma destroy_n_block:
  "block_of h b = Some ss \<Longrightarrow> i + n \<le> length ss \<Longrightarrow> None \<notin> set (slice i n ss) \<Longrightarrow>
   destroy_n (b, i) n h = Inr (set_block b (overwrite i (replicate n None) ss) h)"
proof (induction n arbitrary: i h ss)
  case 0
  then show ?case by (simp add: overwrite_Nil set_block_same)
next
  case (Suc n)
  from Suc.prems have i: "i < length ss" by simp
  with Suc.prems obtain x where x: "ss ! i = Some x"
    by (cases "ss ! i") (auto simp: slice_Suc)
  let ?h1 = "set_block b (ss[i := None]) h"
  have d: "Destroy (b, i) h = Inr ?h1"
    using Suc.prems(1) i x by (rule Destroy_at)
  have b1: "block_of ?h1 b = Some (ss[i := None])"
    using Suc.prems(1) by (rule block_of_set_block_same)
  have "None \<notin> set (slice (Suc i) n (ss[i := None]))"
    using Suc.prems(3) i by (simp add: slice_Suc slice_update_outside)
  with Suc.IH[OF b1, of "Suc i"] Suc.prems(2)
  have "destroy_n (b, Suc i) n ?h1 =
        Inr (set_block b (overwrite (Suc i) (replicate n None) (ss[i := None])) ?h1)"
    by simp
  with d i show ?case
    by (simp add: ptr_add_def set_block_twice overwrite_Cons)
qed

lemma uninitialized_copy_n_blocks:
  assumes "block_of h bs = Some ss" "block_of h bd = Some sd" "bs \<noteq> bd"
    "i + n \<le> length ss" "j + n \<le> length sd"
    "None \<notin> set (slice i n ss)" "slice j n sd = replicate n None"
  shows "uninitialized_copy_n T (bs, i) n (bd, j) h =
     (if None \<in> set (map (\<lambda>s. copy_ctor T (the s)) (slice i n ss))
      then (Some ElementConstructionFailure, h)
      else (None, set_block bd (overwrite j (map (\<lambda>s. copy_ctor T (the s)) (slice i n ss)) sd) h))"
  using assms
proof (induction n arbitrary: i j h sd)
  case 0
  then show ?case by (simp add: slice_0 overwrite_Nil set_block_same)
next
  case (Suc n)
  from Suc.prems have i: "i < length ss" and j: "j < length sd" by simp_all
  from Suc.prems(6) i obtain x where x: "ss ! i = Some x"
    by (cases "ss ! i") (auto simp: slice_Suc)
  from Suc.prems(7) j have dj: "sd ! j = None"
    by (simp add: slice_Suc)
  note step = copy_construct_at_blocks[OF Suc.prems(1) i x Suc.prems(2) j, of T]
  show ?case
  proof (cases "copy_ctor T x")
    case None
    with step i x show ?thesis by (simp add: slice_Suc)
  next
    case (Some y)
    let ?sd1 = "sd[j := Some y]"
    let ?h1 = "set_block bd ?sd1 h"
    from step Some have s1: "copy_construct_at T (bs, i) (bd, j) h = Inr ?h1" by simp
    have b1: "block_of ?h1 bs = Some ss"
      using Suc.prems(1,3) by (simp add: block_of_set_block_other)
    have b2: "block_of ?h1 bd = Some ?sd1"
      using Suc.prems(2) by (rule block_of_set_block_same)
    have p6: "None \<notin> set (slice (Suc i) n ss)"
      using Suc.prems(6) i by (simp add: slice_Suc)
    have p7: "slice (Suc j) n ?sd1 = replicate n None"
      using Suc.prems(7) j by (simp add: slice_Suc slice_update_outside)
    have ih: "uninitialized_copy_n T (bs, Suc i) n (bd, Suc j) ?h1 =
       (if None \<in> set (map (\<lambda>s. copy_ctor T (the s)) (slice (Suc i) n ss))
        then (Some ElementConstructionFailure, ?h1)
        else (None, set_block bd (overwrite (Suc j) (map (\<lambda>s. copy_ctor T (the s)) (slice (Suc i) n ss)) ?sd1) ?h1))"
      using Suc.prems(4,5) by (intro Suc.IH[OF b1 b2 Suc.prems(3) _ _ p6 p7]) simp_all
    have undo: "Destroy (bd, j) ?h1 = Inr h"
      using Destroy_at[OF b2, of j y] j dj Suc.prems(2)
      by (simp add: set_block_twice list_update_same_conv[THEN iffD2] set_block_same)
    show ?thesis
      using s1 ih undo i j x Some
      by (simp add: ptr_add_def slice_Suc set_block_twice overwrite_Cons)
  qed
qed

lemma uninitialized_move_n_blocks:
  assumes "block_of h bs = Some ss" "block_of h bd = Some sd" "bs \<noteq> bd"
    "i + n \<le> length ss" "j + n \<le> length sd"
    "None \<notin> set (slice i n ss)"
    "None \<notin> set (map (\<lambda>s. move_ctor T (the s)) (slice i n ss))"
  shows "uninitialized_move_n T (bs, i) n (bd, j) h =
     (None,
      set_block bd (overwrite j (map (\<lambda>s. Some (fst (the (move_ctor T (the s))))) (slice i n ss)) sd)
        (set_block bs (overwrite i (map (\<lambda>s. Some (snd (the (move_ctor T (the s))))) (slice i n ss)) ss) h))"
  using assms
proof (induction n arbitrary: i j h sd ss)
  case 0
  then show ?case by (simp add: slice_0 overwrite_Nil set_block_same block_of_set_block_other)
next
  case (Suc n)
  from Suc.prems have i: "i < length ss" and j: "j < length sd" by simp_all
  from Suc.prems(6) i obtain x where x: "ss ! i = Some x"
    by (cases "ss ! i") (auto simp: slice_Suc)
  from Suc.prems(7) i x obtain y x' where m: "move_ctor T x = Some (y, x')"
    by (cases "move_ctor T x") (auto simp: slice_Suc)
  let ?ss1 = "ss[i := Some x']"
  let ?sd1 = "sd[j := Some y]"
  let ?h1 = "set_block bd ?sd1 (set_block bs ?ss1 h)"
  have s1: "move_construct_at T (bs, i) (bd, j) h = Inr ?h1"
    using move_construct_at_blocks[OF Suc.prems(1) i x Suc.prems(2) j Suc.prems(3), of T] m
    by simp
  have b1: "block_of ?h1 bs = Some ?ss1"
    using Suc.prems(1,3) by (simp add: block_of_set_block_other block_of_set_block_same)
  have b2: "block_of ?h1 bd = Some ?sd1"
    using Suc.prems(2,3) by (auto simp: block_of_set_block allocated_set_block dest: block_of_SomeD)
  have sl: "slice (Suc i) n ?ss1 = slice (Suc i) n ss"
    by (simp add: slice_update_outside)
  have p6: "None \<notin> set (slice (Suc i) n ?ss1)"
    using Suc.prems(6) i by (simp add: sl slice_Suc)
  have p7: "None \<notin> set (map (\<lambda>s. move_ctor T (the s)) (slice (Suc i) n ?ss1))"
    using Suc.prems(7) i by (simp add: sl slice_Suc)
  have ih: "uninitialized_move_n T (bs, Suc i) n (bd, Suc j) ?h1 =
     (None,
      set_block bd (overwrite (Suc j) (map (\<lambda>s. Some (fst (the (move_ctor T (the s))))) (slice (Suc i) n ss)) ?sd1)
        (set_block bs (overwrite (Suc i) (map (\<lambda>s. Some (snd (the (move_ctor T (the s))))) (slice (Suc i) n ss)) ?ss1) ?h1))"
    using Suc.prems(4,5) Suc.IH[OF b1 b2 Suc.prems(3) _ _ p6 p7, of "Suc j"]
    by (simp add: sl)
  have comm: "\<And>a c g. set_block bs a (set_block bd c g) = set_block bd c (set_block bs a g)"
    using Suc.prems(3) by (auto simp: set_block_def fun_upd_twist)
  show ?case
    using s1 ih i j x m
    by (simp add: ptr_add_def slice_Suc set_block_twice overwrite_Cons comm)
qed

section \<open>Well-formed containers\<close>

lemma vector_ok_block:
  assumes "vector_ok h v" "0 < capacity_m (data_m v)"
  obtains b ss where "buffer_m (data_m v) = (b, 0)" "block_of h b = Some ss"
    "size_m v \<le> length ss" "length ss \<le> capacity_m (data_m v)"
    "None \<notin> set (slice 0 (size_m v) ss)"
proof -
  from assms obtain ss where "snd (buffer_m (data_m v)) = 0"
    "block_of h (fst (buffer_m (data_m v))) = Some ss"
    "size_m v \<le> length ss" "length ss \<le> capacity_m (data_m v)"
    "list_all (\<lambda>s. s \<noteq> None) (take (size_m v) ss)"
    by (auto simp: vector_ok_def split: option.splits)
  then show ?thesis
    by (intro that[of "fst (buffer_m (data_m v))" ss])
      (auto simp: slice_def list_all_iff prod_eq_iff)
qed

lemma vector_ok_sizes:
  "vector_ok h v \<Longrightarrow> size_m v \<le> capacity_m (data_m v) \<and> capacity_m (data_m v) < size_max"
  by (simp add: vector_ok_def)

lemma vector_ok_empty:
  "vector_ok h v \<Longrightarrow> capacity_m (data_m v) = 0 \<Longrightarrow> size_m v = 0 \<and> buffer_m (data_m v) = nullptr"
  by (simp add: vector_ok_def)

lemma vector_okI:
  assumes "buffer_m (data_m v) = (b, 0)" "block_of h b = Some ss"
    "size_m v \<le> length ss" "length ss \<le> capacity_m (data_m v)"
    "capacity_m (data_m v) < size_max" "0 < capacity_m (data_m v)"
    "None \<notin> set (take (size_m v) ss)"
  shows "vector_ok h v"
proof -
  have "\<forall>s\<in>set (take (size_m v) ss). s \<noteq> None"
    using assms(7) by metis
  then have "list_all (\<lambda>s. s \<noteq> None) (take (size_m v) ss)"
    by (simp only: list_all_iff)
  with assms show ?thesis by (simp add: vector_ok_def)
qed

lemma vector_ok_default: "vector_ok h Vector_default"
  by (simp add: vector_ok_def Vector_default_def RawMemory_default_def size_max_def)

text \<open>The destructor of a well-formed container finds a live object in each of its slots.\<close>

lemma destroy_elements_succeeds:
  assumes ok: "vector_ok h v"
    and same: "block_of g (fst (buffer_m (data_m v))) = block_of h (fst (buffer_m (data_m v)))"
  shows "\<exists>g'. destroy_n (GetAddress (data_m v)) (size_m v) g = Inr g'"
proof (cases "capacity_m (data_m v) = 0")
  case True
  with ok have "size_m v = 0" by (simp add: vector_ok_empty)
  then show ?thesis by simp
next
  case False
  then have "0 < capacity_m (data_m v)" by simp
  from vector_ok_block[OF ok this] obtain b ss where
    buf: "buffer_m (data_m v) = (b, 0)" and blk: "block_of h b = Some ss"
    and len: "size_m v \<le> length ss" and live: "None \<notin> set (slice 0 (size_m v) ss)"
    by blast
  from same buf blk have "block_of g b = Some ss" by simp
  from destroy_n_block[OF this, of 0 "size_m v"] live len buf show ?thesis
    by (simp add: GetAddress_def)
qed

section \<open>Exceptions during a copy\<close>

text \<open>
  The copy constructor of the container touches no block but the new one, and releases
  that one when it throws.
\<close>

lemma Vector_copy_outcome:
  assumes run: "Vector_copy T rhs h = (r, h')"
  shows "(case r of
            Inl e \<Rightarrow> block_of h' = block_of h
          | Inr c \<Rightarrow> (\<forall>b. b \<noteq> Suc (allocated h) \<longrightarrow> block_of h' b = block_of h b))"
proof (cases "size_m rhs = 0")
  case True
  with run show ?thesis
    by (auto simp: Vector_copy_def RawMemory_ctor_0 Size_def)
next
  case False
  then have pos: "0 < size_m rhs" by simp
  show ?thesis
  proof (cases "limit h < size_mul (size_m rhs) (sizeof T)")
    case True
    with run pos show ?thesis
      by (auto simp: Vector_copy_def RawMemory_ctor_pos)
  next
    case False
    let ?b' = "Suc (allocated h)"
    let ?d = "\<lparr>buffer_m = (?b', 0), capacity_m = size_m rhs\<rparr>"
    let ?h1 = "with_new_block (size_mul (size_m rhs) (sizeof T) div sizeof T) h"
    obtain r1 g where c: "uninitialized_copy_n T (GetAddress (data_m rhs)) (size_m rhs) (?b', 0) ?h1 = (r1, g)"
      by (cases "uninitialized_copy_n T (GetAddress (data_m rhs)) (size_m rhs) (?b', 0) ?h1") auto
    from modifies_frame[OF uninitialized_copy_n_modifies[OF c]]
    have fr: "block_of g b = block_of h b" if "b \<noteq> ?b'" for b
      using that by (simp add: block_of_with_new_block)
    show ?thesis
    proof (cases r1)
      case None
      with run pos False c fr show ?thesis
        by (auto simp: Vector_copy_def RawMemory_ctor_pos GetAddress_def Size_def)
    next
      case (Some e)
      have "block_of (RawMemory_dtor ?d g) = block_of h"
        by (rule block_of_release_new) (rule fr)
      with run pos False c Some show ?thesis
        by (auto simp: Vector_copy_def RawMemory_ctor_pos GetAddress_def Size_def)
    qed
  qed
qed

lemma assign_by_copy_strong:
  assumes ok: "vector_ok h v"
    and run: "assign_by_copy T rhs (v, h) = (Some e, v', h')"
  shows "v' = v \<and> block_of h' = block_of h"
proof -
  obtain c h1 where cp: "Vector_copy T rhs h = (c, h1)"
    by (cases "Vector_copy T rhs h") auto
  note out = Vector_copy_outcome[OF cp]
  show ?thesis
  proof (cases c)
    case (Inl err)
    with run cp out show ?thesis by (simp add: assign_by_copy_def)
  next
    case (Inr rhs_copy)
    with out have old: "\<forall>b. b \<noteq> Suc (allocated h) \<longrightarrow> block_of h1 b = block_of h b" by simp
    have same: "block_of h1 (fst (buffer_m (data_m v))) = block_of h (fst (buffer_m (data_m v)))"
    proof (cases "fst (buffer_m (data_m v)) = Suc (allocated h)")
      case True
      then have "block_of h (fst (buffer_m (data_m v))) = None" by (simp add: block_of_def)
      with ok have "capacity_m (data_m v) = 0" by (auto simp: vector_ok_def split: if_splits)
      with ok have "buffer_m (data_m v) = nullptr" by (simp add: vector_ok_empty)
      with True show ?thesis by (simp add: nullptr_def)
    next
      case False
      with old show ?thesis by simp
    qed
    from destroy_elements_succeeds[OF ok same] obtain g' where
      "destroy_n (GetAddress (data_m v)) (size_m v) h1 = Inr g'" by blast
    with run cp Inr show ?thesis
      by (simp add: assign_by_copy_def Vector_Swap_def RawMemory_Swap_def Vector_dtor_def
          GetAddress_def)
  qed
qed

text \<open>
  \<^verbatim>\<open>Reserve\<close> for a type that is relocated by copy writes to the new block alone until
  the relocation is complete, and an exception releases the new block.
\<close>

lemma Reserve_strong:
  assumes copying: "\<not> is_nothrow_move_constructible T" "is_copy_constructible T"
    and run: "Reserve T n (v, h) = (Some e, v', h')"
  shows "v' = v \<and> block_of h' = block_of h"
proof (cases "n \<le> capacity_m (data_m v)")
  case True
  with run show ?thesis by (simp add: Reserve_def RawMemory_Capacity_def)
next
  case False
  then have pos: "0 < n" by simp
  show ?thesis
  proof (cases "limit h < size_mul n (sizeof T)")
    case True
    with run False pos show ?thesis
      by (simp add: Reserve_def RawMemory_Capacity_def RawMemory_ctor_pos)
  next
    case lim: False
    let ?b' = "Suc (allocated h)"
    let ?d = "\<lparr>buffer_m = (?b', 0), capacity_m = n\<rparr>"
    let ?h1 = "with_new_block (size_mul n (sizeof T) div sizeof T) h"
    obtain r1 g where c: "uninitialized_copy_n T (GetAddress (data_m v)) (size_m v) (?b', 0) ?h1 = (r1, g)"
      by (cases "uninitialized_copy_n T (GetAddress (data_m v)) (size_m v) (?b', 0) ?h1") auto
    from modifies_frame[OF uninitialized_copy_n_modifies[OF c]]
    have fr: "block_of g b = block_of h b" if "b \<noteq> ?b'" for b
      using that by (simp add: block_of_with_new_block)
    have rel: "block_of (RawMemory_dtor ?d g) = block_of h"
      by (rule block_of_release_new) (rule fr)
    show ?thesis
    proof (cases r1)
      case (Some err)
      with run False pos lim c copying rel show ?thesis
        by (simp add: Reserve_def RawMemory_Capacity_def RawMemory_ctor_pos UninitCopyOrMove_def
            GetAddress_def)
    next
      case None
      show ?thesis
      proof (cases "destroy_n (GetAddress (data_m v)) (size_m v) g")
        case (Inl err)
        with run False pos lim c copying rel None show ?thesis
          by (simp add: Reserve_def RawMemory_Capacity_def RawMemory_ctor_pos UninitCopyOrMove_def
              GetAddress_def)
      next
        case (Inr g')
        with run False pos lim c copying None show ?thesis
          by (simp add: Reserve_def RawMemory_Capacity_def RawMemory_ctor_pos UninitCopyOrMove_def
              GetAddress_def RawMemory_Swap_def)
      qed
    qed
  qed
qed

lemma elements_cong:
  assumes "block_of h' = block_of h"
  shows "elements h' v = elements h v"
proof -
  from assms have "read_slot h' = read_slot h"
    by (simp add: fun_eq_iff read_slot_def)
  then have "at h' v = at h v"
    by (simp add: fun_eq_iff at_def split: sum.splits)
  then show ?thesis
    by (simp add: elements_def)
qed

section \<open>Relocation, shifting and insertion\<close>

lemma length_slice_min: "length (slice i n xs) = min n (length xs - i)"
  by (simp add: slice_def)

lemma nth_slice_any: "k < length (slice i n xs) \<Longrightarrow> slice i n xs ! k = xs ! (i + k)"
  by (auto simp: slice_def)

lemma slice_overwrite_outside:
  assumes "j + length ys \<le> i \<or> i + n \<le> j" "j + length ys \<le> length xs"
  shows "slice i n (overwrite j ys xs) = slice i n xs"
proof (rule nth_equalityI)
  show len: "length (slice i n (overwrite j ys xs)) = length (slice i n xs)"
    using assms(2) by (simp add: length_slice_min length_overwrite)
  fix k assume k: "k < length (slice i n (overwrite j ys xs))"
  then have "k < n \<and> k < length xs - i"
    using assms(2) by (simp add: length_slice_min length_overwrite)
  then have k2: "k < n" "i + k < length xs" by arith+
  with assms(1) have out: "\<not> (j \<le> i + k \<and> i + k < j + length ys)" by arith
  from k len have "slice i n (overwrite j ys xs) ! k = overwrite j ys xs ! (i + k)"
    and "slice i n xs ! k = xs ! (i + k)"
    by (simp_all add: nth_slice_any)
  with out k2 assms(2) show "slice i n (overwrite j ys xs) ! k = slice i n xs ! k"
    by (auto simp: nth_overwrite)
qed

lemma slice_overwrite_same:
  "j + length ys \<le> length xs \<Longrightarrow> slice j (length ys) (overwrite j ys xs) = ys"
  by (simp add: slice_def overwrite_def)

lemma slice_append: "slice i (n + m) xs = slice i n xs @ slice (i + n) m xs"
  by (simp add: slice_def take_add add.commute[of n i])

lemma overwrite_slice_same:
  assumes "i + n \<le> length xs"
  shows "overwrite i (slice i n xs) xs = xs"
proof -
  from assms have "length (slice i n xs) = n" by (simp add: length_slice)
  moreover have "drop (i + n) xs = drop n (drop i xs)"
    by (simp add: add.commute)
  ultimately
  have "overwrite i (slice i n xs) xs = take i xs @ (take n (drop i xs) @ drop n (drop i xs))"
    by (simp only: overwrite_def slice_def)
  then show ?thesis by (simp only: append_take_drop_id)
qed

lemma slice_0_take: "slice 0 n xs = take n xs"
  by (simp add: slice_def)

lemma uninitialized_move_n_succeeded:
  assumes "block_of h bs = Some ss" "block_of h bd = Some sd" "bs \<noteq> bd"
    "i + n \<le> length ss" "j + n \<le> length sd" "None \<notin> set (slice i n ss)"
    "uninitialized_move_n T (bs, i) n (bd, j) h = (None, g)"
  shows "None \<notin> set (map (\<lambda>s. move_ctor T (the s)) (slice i n ss))"
  using assms
proof (induction n arbitrary: i j h sd ss g)
  case 0
  then show ?case by (simp add: slice_0)
next
  case (Suc n)
  from Suc.prems have i: "i < length ss" and j: "j < length sd" by simp_all
  from Suc.prems(6) i obtain x where x: "ss ! i = Some x"
    by (cases "ss ! i") (auto simp: slice_Suc)
  note step = move_construct_at_blocks[OF Suc.prems(1) i x Suc.prems(2) j Suc.prems(3), of T]
  show ?case
  proof (cases "move_ctor T x")
    case None
    with step Suc.prems(7) show ?thesis by simp
  next
    case (Some a)
    then obtain y x' where m: "move_ctor T x = Some (y, x')" by (cases a) auto
    let ?ss1 = "ss[i := Some x']"
    let ?sd1 = "sd[j := Some y]"
    let ?h1 = "set_block bd ?sd1 (set_block bs ?ss1 h)"
    from step m have s1: "move_construct_at T (bs, i) (bd, j) h = Inr ?h1" by simp
    have b1: "block_of ?h1 bs = Some ?ss1"
      using Suc.prems(1,3) by (simp add: block_of_set_block_other block_of_set_block_same)
    have b2: "block_of ?h1 bd = Some ?sd1"
      using Suc.prems(2,3) by (auto simp: block_of_set_block allocated_set_block dest: block_of_SomeD)
    have sl: "slice (Suc i) n ?ss1 = slice (Suc i) n ss"
      by (simp add: slice_update_outside)
    have p6: "None \<notin> set (slice (Suc i) n ?ss1)"
      using Suc.prems(6) i by (simp add: sl slice_Suc)
    from Suc.prems(7) s1 obtain g1 where
      rec: "uninitialized_move_n T (bs, Suc i) n (bd, Suc j) ?h1 = (None, g1)"
      by (auto simp: ptr_add_def split: prod.splits option.splits sum.splits)
    from Suc.IH[OF b1 b2 Suc.prems(3) _ _ p6 rec] Suc.prems(4,5)
    have "None \<notin> set (map (\<lambda>s. move_ctor T (the s)) (slice (Suc i) n ss))"
      by (simp add: sl)
    with m i x show ?thesis by (simp add: slice_Suc)
  qed
qed

lemma map_copy_id:
  assumes "value_semantics T" "None \<notin> set xs"
    "None \<notin> set (map (\<lambda>s. copy_ctor T (the s)) xs)"
  shows "map (\<lambda>s. copy_ctor T (the s)) xs = xs"
proof (rule map_idI)
  fix s assume s: "s \<in> set xs"
  with assms(2) obtain x where x: "s = Some x" by (cases s) auto
  with s assms(3) obtain y where "copy_ctor T x = Some y"
    by (cases "copy_ctor T x") force+
  with assms(1) x show "copy_ctor T (the s) = s"
    by (auto simp: value_semantics_def)
qed

lemma map_move_id:
  assumes "value_semantics T" "None \<notin> set xs"
    "None \<notin> set (map (\<lambda>s. move_ctor T (the s)) xs)"
  shows "map (\<lambda>s. Some (fst (the (move_ctor T (the s))))) xs = xs"
proof (rule map_idI)
  fix s assume s: "s \<in> set xs"
  with assms(2) obtain x where x: "s = Some x" by (cases s) auto
  with s assms(3) obtain y x' where "move_ctor T x = Some (y, x')"
    by (cases "move_ctor T x") force+
  with assms(1) x show "Some (fst (the (move_ctor T (the s)))) = s"
    by (auto simp: value_semantics_def)
qed

text \<open>
  Relocation into another block, by copy or by move, when it does not throw: the
  destination range holds the source's objects, the source range holds live objects.
\<close>

lemma UninitCopyOrMove_blocks:
  assumes bs: "block_of h bs = Some ss" and bd: "block_of h bd = Some sd" and ne: "bs \<noteq> bd"
    and ri: "i + n \<le> length ss" and rj: "j + n \<le> length sd"
    and live: "None \<notin> set (slice i n ss)" and fresh: "slice j n sd = replicate n None"
    and vs: "value_semantics T"
    and run: "UninitCopyOrMove T (bs, i) n (bd, j) h = (None, g)"
  shows "\<exists>ms. length ms = n \<and> None \<notin> set ms \<and>
           g = set_block bd (overwrite j (slice i n ss) sd) (set_block bs (overwrite i ms ss) h)"
proof (cases "is_nothrow_move_constructible T \<or> \<not> is_copy_constructible T")
  case True
  with run have mv: "uninitialized_move_n T (bs, i) n (bd, j) h = (None, g)"
    by (simp add: UninitCopyOrMove_def)
  note ok = uninitialized_move_n_succeeded[OF bs bd ne ri rj live mv]
  let ?ms = "map (\<lambda>s. Some (snd (the (move_ctor T (the s))))) (slice i n ss)"
  from uninitialized_move_n_blocks[OF bs bd ne ri rj live ok] mv
  have "g = set_block bd (overwrite j (slice i n ss) sd) (set_block bs (overwrite i ?ms ss) h)"
    by (simp add: map_move_id[OF vs live ok])
  moreover have "length ?ms = n" using ri by (simp add: length_slice)
  moreover have "None \<notin> set ?ms" by auto
  ultimately show ?thesis by blast
next
  case False
  with run have cp: "uninitialized_copy_n T (bs, i) n (bd, j) h = (None, g)"
    by (simp add: UninitCopyOrMove_def)
  from uninitialized_copy_n_blocks[OF bs bd ne ri rj live fresh, of T] cp
  have ok: "None \<notin> set (map (\<lambda>s. copy_ctor T (the s)) (slice i n ss))"
    and g: "g = set_block bd (overwrite j (map (\<lambda>s. copy_ctor T (the s)) (slice i n ss)) sd) h"
    by (auto split: if_splits)
  have "overwrite i (slice i n ss) ss = ss"
    using ri by (rule overwrite_slice_same)
  with g bs have "g = set_block bd (overwrite j (slice i n ss) sd) (set_block bs (overwrite i (slice i n ss) ss) h)"
    by (simp add: map_copy_id[OF vs live ok] set_block_same)
  moreover have "length (slice i n ss) = n" using ri by (simp add: length_slice)
  ultimately show ?thesis using live by blast
qed

lemma value_semantics_copy_ctor:
  "value_semantics T \<Longrightarrow> copy_ctor T x = Some y \<Longrightarrow> y = x"
  unfolding value_semantics_def by blast

lemma value_semantics_move_ctor:
  "value_semantics T \<Longrightarrow> move_ctor T x = Some (y, x') \<Longrightarrow> y = x"
  unfolding value_semantics_def by blast

lemma value_semantics_copy_assign:
  "value_semantics T \<Longrightarrow> copy_assign T d x = Some d' \<Longrightarrow> d' = x"
  unfolding value_semantics_def by blast

lemma value_semantics_move_assign:
  "value_semantics T \<Longrightarrow> move_assign T d x = Some (d', x') \<Longrightarrow> d' = x"
  unfolding value_semantics_def by blast

lemma live_nth:
  assumes "None \<notin> set (slice i n ss)" "i + n \<le> length ss" "k < n"
  shows "\<exists>x. ss ! (i + k) = Some x"
proof -
  from assms(2,3) have "slice i n ss ! k = ss ! (i + k)" "k < length (slice i n ss)"
    by (simp_all add: nth_slice length_slice)
  then have "ss ! (i + k) \<in> set (slice i n ss)" by (metis nth_mem)
  with assms(1) show ?thesis by (cases "ss ! (i + k)") auto
qed

text \<open>
  \<^verbatim>\<open>std::move_backward\<close> inside one block, one slot to the back: the \<open>n\<close> objects from
  offset \<open>i\<close> end up from offset \<open>i + 1\<close>, and the slot at \<open>i\<close> holds what the move left.
\<close>

lemma move_backward_n_block:
  assumes "block_of h b = Some ss" "i + n < length ss" "None \<notin> set (slice i (Suc n) ss)"
    "value_semantics T" "move_backward_n T (b, i) n (b, Suc (i + n)) h = (None, g)"
  shows "\<exists>m. g = set_block b (overwrite i (Some m # slice i n ss) ss) h"
  using assms
proof (induction n arbitrary: h ss)
  case 0
  then obtain m where "ss ! i = Some m"
    by (cases "ss ! i") (auto simp: slice_Suc slice_0)
  with 0 have "overwrite i (Some m # slice i 0 ss) ss = ss"
    by (simp add: slice_0 overwrite_single list_update_same_conv[THEN iffD2])
  with 0 show ?case by (intro exI[of _ m]) (simp add: set_block_same)
next
  case (Suc n)
  let ?s = "i + n" and ?d = "Suc (i + n)"
  from Suc.prems(2) have s: "?s < length ss" and d: "?d < length ss" by simp_all
  from Suc.prems(3) d have live: "None \<notin> set (slice i (Suc n) ss)"
    by (auto simp: slice_snoc[of i "Suc n"])
  from live_nth[OF Suc.prems(3), of "Suc n"] live_nth[OF Suc.prems(3), of n] d
  obtain x dv where x: "ss ! ?s = Some x" and dv: "ss ! ?d = Some dv" by auto
  note step = move_assign_at_block[OF Suc.prems(1) s x d dv, of T]
  from Suc.prems(5) have ps: "ptr_sub (b, Suc (i + Suc n)) 1 = Inr (b, ?d)"
    by (simp add: ptr_sub_def)
  show ?case
  proof (cases "move_assign T dv x")
    case None
    with step Suc.prems(5) ps show ?thesis by (simp add: ptr_add_def)
  next
    case (Some a)
    then obtain d' x' where m: "move_assign T dv x = Some (d', x')" by (cases a) auto
    with Suc.prems(4) have d': "d' = x" by (rule value_semantics_move_assign)
    let ?ss1 = "ss[?s := Some x', ?d := Some x]"
    let ?h1 = "set_block b ?ss1 h"
    from step m d' have s1: "move_assign_at T (b, ?s) (b, ?d) h = Inr ?h1" by simp
    have b1: "block_of ?h1 b = Some ?ss1"
      using Suc.prems(1) by (rule block_of_set_block_same)
    have sl1: "slice i n ?ss1 = slice i n ss"
      by (simp add: slice_update_outside)
    have live1: "None \<notin> set (slice i (Suc n) ?ss1)"
      using live s by (auto simp: slice_snoc[of i n] sl1)
    from Suc.prems(5) ps s1 have rec: "move_backward_n T (b, i) n (b, Suc (i + n)) ?h1 = (None, g)"
      by (simp add: ptr_add_def)
    from Suc.IH[OF b1 _ live1 Suc.prems(4) rec] s obtain m' where
      g: "g = set_block b (overwrite i (Some m' # slice i n ss) ?ss1) h"
      by (auto simp: sl1 set_block_twice)
    have len: "length (Some m' # slice i n ss) = Suc n"
      using s by (simp add: length_slice)
    have "overwrite i (Some m' # slice i n ss) ?ss1 =
          overwrite i ((Some m' # slice i n ss) @ [Some x]) (ss[?s := Some x'])"
      using overwrite_snoc[of i "Some m' # slice i n ss" "ss[?s := Some x']" "Some x"] d len
      by simp
    also have "\<dots> = overwrite i ((Some m' # slice i n ss) @ [Some x]) ss"
      using len by (intro overwrite_update_inside) simp_all
    also have "(Some m' # slice i n ss) @ [Some x] = Some m' # slice i (Suc n) ss"
      using s x by (simp add: slice_snoc)
    finally show ?thesis using g by auto
  qed
qed

text \<open>
  \<^verbatim>\<open>std::move\<close> inside one block, one slot to the front: the \<open>n\<close> objects from offset
  \<open>i + 1\<close> end up from offset \<open>i\<close>, and the last slot of the range holds a live object.
\<close>

lemma move_n_block:
  assumes "block_of h b = Some ss" "i + n < length ss" "None \<notin> set (slice i (Suc n) ss)"
    "value_semantics T" "move_n T (b, Suc i) n (b, i) h = (None, g)"
  shows "\<exists>m. g = set_block b (overwrite i (slice (Suc i) n ss @ [Some m]) ss) h"
  using assms
proof (induction n arbitrary: i h ss)
  case 0
  then obtain m where "ss ! i = Some m"
    by (cases "ss ! i") (auto simp: slice_Suc slice_0)
  with 0 have "overwrite i (slice (Suc i) 0 ss @ [Some m]) ss = ss"
    by (simp add: slice_0 overwrite_single list_update_same_conv[THEN iffD2])
  with 0 show ?case by (intro exI[of _ m]) (simp add: set_block_same)
next
  case (Suc n)
  from Suc.prems(2) have d: "i < length ss" and s: "Suc i < length ss" by simp_all
  from Suc.prems(3) d have rest: "None \<notin> set (slice (Suc i) (Suc n) ss)"
    by (auto simp: slice_Suc[of i])
  from live_nth[OF Suc.prems(3), of 0] live_nth[OF Suc.prems(3), of 1] Suc.prems(2)
  obtain x dv where x: "ss ! Suc i = Some x" and dv: "ss ! i = Some dv" by auto
  note step = move_assign_at_block[OF Suc.prems(1) s x d dv, of T]
  show ?case
  proof (cases "move_assign T dv x")
    case None
    with step Suc.prems(5) show ?thesis by simp
  next
    case (Some a)
    then obtain d' x' where m: "move_assign T dv x = Some (d', x')" by (cases a) auto
    with Suc.prems(4) have d': "d' = x" by (rule value_semantics_move_assign)
    let ?ss1 = "ss[Suc i := Some x', i := Some x]"
    let ?h1 = "set_block b ?ss1 h"
    from step m d' have s1: "move_assign_at T (b, Suc i) (b, i) h = Inr ?h1" by simp
    have b1: "block_of ?h1 b = Some ?ss1"
      using Suc.prems(1) by (rule block_of_set_block_same)
    have sl1: "slice (Suc (Suc i)) n ?ss1 = slice (Suc (Suc i)) n ss"
      by (simp add: slice_update_outside)
    have live1: "None \<notin> set (slice (Suc i) (Suc n) ?ss1)"
      using rest s by (auto simp: slice_Suc sl1)
    from Suc.prems(5) s1 have rec: "move_n T (b, Suc (Suc i)) n (b, Suc i) ?h1 = (None, g)"
      by (simp add: ptr_add_def)
    from Suc.IH[OF b1 _ live1 Suc.prems(4) rec] Suc.prems(2) obtain m' where
      g: "g = set_block b (overwrite (Suc i) (slice (Suc (Suc i)) n ss @ [Some m']) ?ss1) h"
      by (auto simp: sl1 set_block_twice)
    let ?ys = "slice (Suc (Suc i)) n ss @ [Some m']"
    have len: "length ?ys = Suc n"
      using Suc.prems(2) by (simp add: length_slice)
    have "overwrite (Suc i) ?ys ?ss1 = overwrite i (Some x # ?ys) (ss[Suc i := Some x'])"
      using d by (simp add: overwrite_Cons)
    also have "\<dots> = overwrite i (Some x # ?ys) ss"
      using len by (intro overwrite_update_inside) simp_all
    also have "Some x # ?ys = slice (Suc i) (Suc n) ss @ [Some m']"
      using s x by (simp add: slice_Suc)
    finally show ?thesis using g by auto
  qed
qed

lemma overwrite_0: "overwrite 0 ys xs = ys @ drop (length ys) xs"
  by (simp add: overwrite_def)

lemma overwrite_append: "overwrite (length ps + j) ys (ps @ qs) = ps @ overwrite j ys qs"
  by (simp add: overwrite_def add.assoc)

lemma UninitCopyOrMove_obs:
  assumes bs: "block_of h bs = Some ss" and bd: "block_of h bd = Some sd" and ne: "bs \<noteq> bd"
    and ri: "i + n \<le> length ss" and rj: "j + n \<le> length sd"
    and live: "None \<notin> set (slice i n ss)" and fresh: "slice j n sd = replicate n None"
    and vs: "value_semantics T"
    and run: "UninitCopyOrMove T (bs, i) n (bd, j) h = (None, g)"
  shows "\<exists>ms. length ms = n \<and> None \<notin> set ms \<and>
           block_of g bd = Some (overwrite j (slice i n ss) sd) \<and>
           block_of g bs = Some (overwrite i ms ss) \<and>
           (\<forall>c. c \<noteq> bs \<and> c \<noteq> bd \<longrightarrow> block_of g c = block_of h c) \<and>
           allocated g = allocated h"
proof -
  from UninitCopyOrMove_blocks[OF assms] obtain ms where
    ms: "length ms = n" "None \<notin> set ms"
    and g: "g = set_block bd (overwrite j (slice i n ss) sd) (set_block bs (overwrite i ms ss) h)"
    by blast
  from bs bd have "0 < bs" "bs \<le> allocated h" "0 < bd" "bd \<le> allocated h"
    by (auto dest: block_of_SomeD)
  with g ne have "block_of g bd = Some (overwrite j (slice i n ss) sd)"
    "block_of g bs = Some (overwrite i ms ss)"
    "\<forall>c. c \<noteq> bs \<and> c \<noteq> bd \<longrightarrow> block_of g c = block_of h c"
    "allocated g = allocated h"
    by (simp_all add: block_of_set_block allocated_set_block)
  with ms show ?thesis by blast
qed

lemma UninitCopyOrMove_0: "UninitCopyOrMove T p 0 q h = (None, h)"
  by (simp add: UninitCopyOrMove_def)

lemma elements_slots:
  assumes "vector_ok h v"
  shows "elements h v = map (\<lambda>s. Inr (the s)) (slots h v) \<and> length (slots h v) = size_m v \<and>
         None \<notin> set (slots h v)"
proof (cases "capacity_m (data_m v) = 0")
  case True
  with assms have "size_m v = 0" by (simp add: vector_ok_empty)
  then show ?thesis
    by (simp add: elements_def Size_def slots_def split: option.splits)
next
  case False
  then have "0 < capacity_m (data_m v)" by simp
  from vector_ok_block[OF assms this] obtain b ss where
    buf: "buffer_m (data_m v) = (b, 0)" and blk: "block_of h b = Some ss"
    and len: "size_m v \<le> length ss" and live: "None \<notin> set (slice 0 (size_m v) ss)"
    by blast
  from assms have sz: "size_m v \<le> capacity_m (data_m v)" by (simp add: vector_ok_def)
  have sl: "slots h v = take (size_m v) ss"
    using buf blk by (simp add: slots_def)
  have at: "at h v k = Inr (the (ss ! k))" if "k < size_m v" for k
  proof -
    from live_nth[OF live, of k] that len obtain x where "ss ! k = Some x" by auto
    with that sz len buf blk show ?thesis
      by (simp add: at_def Vector_index_def RawMemory_index_def ptr_add_def read_slot_at)
  qed
  have "elements h v = map (\<lambda>s. Inr (the s)) (take (size_m v) ss)"
    using len at by (intro nth_equalityI) (simp_all add: elements_def Size_def)
  with sl live len show ?thesis by (simp add: slice_0_take)
qed

lemma overwrite_update_head:
  "j < length xs \<Longrightarrow> (overwrite j (y # ys) xs)[j := a] = overwrite j (a # ys) xs"
  by (simp add: overwrite_def list_update_append)

lemma slice_drop_take: "i \<le> n \<Longrightarrow> slice i (n - i) xs = drop i (take n xs)"
  by (simp add: slice_def drop_take)

text \<open>What a block must hold after an insertion for the container to hold the new list.\<close>

lemma inserted_block:
  assumes ok: "vector_ok h v" and i: "i \<le> size_m v"
    and old: "block_of h (fst (buffer_m (data_m v))) = Some ss \<or>
              (capacity_m (data_m v) = 0 \<and> ss = [])"
    and buf: "buffer_m (data_m v') = (b', 0)" and blk: "block_of h' b' = Some ss'"
    and len: "Suc (size_m v) \<le> length ss'" "length ss' \<le> capacity_m (data_m v')"
    and sz: "size_m v' = Suc (size_m v)"
    and cap: "capacity_m (data_m v') < size_max"
    and new: "take (Suc (size_m v)) ss' = take i ss @ [Some x] @ slice i (size_m v - i) ss"
  shows "vector_ok h' v' \<and> slots h' v' = take i (slots h v) @ [Some x] @ drop i (slots h v)"
proof -
  from elements_slots[OF ok] have live: "None \<notin> set (slots h v)" by simp
  have sl: "slots h v = take (size_m v) ss"
  proof (cases "capacity_m (data_m v) = 0")
    case True
    with ok have "size_m v = 0" by (simp add: vector_ok_empty)
    then show ?thesis by (simp add: slots_def split: option.splits)
  next
    case False
    with old show ?thesis by (simp add: slots_def)
  qed
  have eq: "take (Suc (size_m v)) ss' = take i (slots h v) @ [Some x] @ drop i (slots h v)"
    using new i by (simp add: sl slice_drop_take min_def)
  have "set (take i (slots h v)) \<subseteq> set (slots h v)" "set (drop i (slots h v)) \<subseteq> set (slots h v)"
    by (simp_all add: set_take_subset set_drop_subset)
  with live have "None \<notin> set (take (Suc (size_m v)) ss')"
    unfolding eq by auto
  then have "None \<notin> set (take (size_m v') ss')" by (simp add: sz)
  with buf blk len sz cap have "vector_ok h' v'"
    by (intro vector_okI[of v' b' h' ss']) simp_all
  moreover have "slots h' v' = take (Suc (size_m v)) ss'"
    using buf blk sz by (simp add: slots_def)
  ultimately show ?thesis using eq by simp
qed

lemma slice_subset:
  assumes "j \<le> i" "i + m \<le> j + n"
  shows "set (slice i m xs) \<subseteq> set (slice j n xs)"
proof
  fix s assume "s \<in> set (slice i m xs)"
  then obtain k where k: "k < length (slice i m xs)" "slice i m xs ! k = s"
    by (auto simp: in_set_conv_nth)
  then have s: "s = xs ! (i + k)" and kk: "k < m" "i + k < length xs"
    by (auto simp: nth_slice_any length_slice_min)
  from kk assms have "i + k - j < length (slice j n xs)"
    by (simp add: length_slice_min) arith
  moreover from this assms have "slice j n xs ! (i + k - j) = xs ! (i + k)"
    by (simp add: nth_slice_any)
  ultimately show "s \<in> set (slice j n xs)"
    using s by (metis nth_mem)
qed

lemma Emplace_shift_works:
  assumes blk: "block_of h b = Some ss" and buf: "buffer_m (data_m v) = (b, 0)"
    and n: "size_m v = Suc (i + m)" and room: "Suc (i + m) < length ss"
    and cap: "size_m v \<le> capacity_m (data_m v)"
    and live: "None \<notin> set (slice 0 (Suc (i + m)) ss)" and vs: "value_semantics T"
    and add: "size_add (size_m v) 1 = Suc (size_m v)"
    and run: "Emplace_shift T (b, i) (Built (Some x)) (v, h) = (None, v', h')"
  shows "v' = v\<lparr>size_m := Suc (size_m v)\<rparr> \<and>
         h' = set_block b (overwrite i (Some x # slice i (Suc m) ss) ss) h"
proof -
  let ?e = "Suc (i + m)"
  have plus: "RawMemory_plus (data_m v) (size_m v) = Inr (b, ?e)"
    using n cap buf by (simp add: RawMemory_plus_def ptr_add_def)
  have bk: "ptr_sub (b, ?e) 1 = Inr (b, i + m)"
    by (simp add: ptr_sub_def)
  from live_nth[OF live, of "i + m"] room obtain l where l: "ss ! (i + m) = Some l"
    by auto
  have im: "i + m < length ss" using room by simp
  note mc = move_construct_at_block[OF blk im l room, of T]
  obtain y l' where mv: "move_ctor T l = Some (y, l')"
    using run plus bk mc
    by (cases "move_ctor T l") (auto simp: Emplace_shift_def)
  from vs mv have y: "y = l" by (rule value_semantics_move_ctor)
  let ?ss1 = "ss[i + m := Some l', ?e := Some l]"
  let ?h1 = "set_block b ?ss1 h"
  have s1: "move_construct_at T (b, i + m) (b, ?e) h = Inr ?h1"
    using mc mv y by simp
  have b1: "block_of ?h1 b = Some ?ss1"
    using blk by (rule block_of_set_block_same)
  have dist: "distance (b, i) (b, i + m) = Inr m"
    by (simp add: distance_def)
  obtain r2 h2 where mb: "move_backward_n T (b, i) m (b, ?e) ?h1 = (r2, h2)"
    by (cases "move_backward_n T (b, i) m (b, ?e) ?h1") auto
  from run plus bk s1 dist mb have r2: "r2 = None"
    by (cases r2) (simp_all add: Emplace_shift_def move_backward_def)
  have "slice i m ?ss1 = slice i m (ss[i + m := Some l'])"
    by (intro slice_update_outside) simp
  also have "\<dots> = slice i m ss"
    by (intro slice_update_outside) simp
  finally have sl1: "slice i m ?ss1 = slice i m ss" .
  have sub: "set (slice i m ss) \<subseteq> set (slice 0 ?e ss)"
    by (rule slice_subset) simp_all
  have "slice i (Suc m) ?ss1 = slice i m ?ss1 @ [?ss1 ! (i + m)]"
    using room by (intro slice_snoc) simp
  then have "slice i (Suc m) ?ss1 = slice i m ss @ [Some l']"
    using room by (simp add: sl1)
  with sub live have live1: "None \<notin> set (slice i (Suc m) ?ss1)"
    by auto
  have im1: "i + m < length ?ss1" using room by simp
  from move_backward_n_block[OF b1 im1 live1 vs] mb r2 obtain m' where
    h2: "h2 = set_block b (overwrite i (Some m' # slice i m ss) ?ss1) h"
    by (auto simp: sl1 set_block_twice)
  let ?ss2 = "overwrite i (Some m' # slice i m ss) ?ss1"
  have len2: "length (Some m' # slice i m ss) = Suc m"
    using room by (simp add: length_slice)
  have lenx: "length (Some x # slice i m ss) = Suc m"
    using room by (simp add: length_slice)
  have b2: "block_of h2 b = Some ?ss2"
    unfolding h2 using blk by (rule block_of_set_block_same)
  have i2: "i < length ?ss2"
    using len2 room by (simp add: length_overwrite)
  have at_i: "?ss2 ! i = Some m'"
    using len2 room by (simp add: nth_overwrite)
  note ma = move_assign_from_at[OF b2 i2 at_i, of T x]
  obtain d' x' where a: "move_assign T m' x = Some (d', x')"
    using run plus bk s1 dist mb r2 ma
    by (cases "move_assign T m' x") (auto simp: Emplace_shift_def move_backward_def)
  from vs a have d': "d' = x" by (rule value_semantics_move_assign)
  from run plus bk s1 dist mb r2 ma a d' add
  have out: "v' = v\<lparr>size_m := Suc (size_m v)\<rparr>" "h' = set_block b (?ss2[i := Some x]) h2"
    by (simp_all add: Emplace_shift_def move_backward_def)
  have "?ss2[i := Some x] = overwrite i (Some x # slice i m ss) ?ss1"
    using room by (simp add: overwrite_update_head)
  also have "\<dots> = overwrite i ((Some x # slice i m ss) @ [Some l]) (ss[i + m := Some l'])"
    using overwrite_snoc[of i "Some x # slice i m ss" "ss[i + m := Some l']" "Some l"]
      lenx room
    by simp
  also have "\<dots> = overwrite i ((Some x # slice i m ss) @ [Some l]) ss"
    using lenx by (intro overwrite_update_inside) simp_all
  also have "(Some x # slice i m ss) @ [Some l] = Some x # slice i (Suc m) ss"
    using room l by (simp add: slice_snoc)
  finally have "?ss2[i := Some x] = overwrite i (Some x # slice i (Suc m) ss) ss" .
  with out h2 show ?thesis by (simp add: set_block_twice)
qed

lemma Emplace_in_place_works:
  assumes ok: "vector_ok h v" and vs: "value_semantics T" and i: "i \<le> size_m v"
    and room: "size_m v < capacity_m (data_m v)"
    and run: "Emplace_in_place T (ptr_add (begin_it v) i) i (Built (Some x)) (v, h) = (None, v', h')"
  shows "vector_ok h' v' \<and> slots h' v' = take i (slots h v) @ [Some x] @ drop i (slots h v) \<and>
         size_m v' = Suc (size_m v) \<and> data_m v' = data_m v \<and>
         read_slot h' (ptr_add (begin_it v') i) = Inr x"
proof -
  from room have "0 < capacity_m (data_m v)" by simp
  from vector_ok_block[OF ok this] obtain b ss where
    buf: "buffer_m (data_m v) = (b, 0)" and blk: "block_of h b = Some ss"
    and len: "size_m v \<le> length ss" "length ss \<le> capacity_m (data_m v)"
    and live: "None \<notin> set (slice 0 (size_m v) ss)"
    by blast
  let ?n = "size_m v"
  from ok have lim: "capacity_m (data_m v) < size_max"
    by (simp add: vector_ok_def)
  with room have add: "size_add ?n 1 = Suc ?n"
    by (simp add: size_add_small)
  have pos: "ptr_add (begin_it v) i = (b, i)"
    using buf by (simp add: ptr_add_def begin_it_def GetAddress_def)
  have plus: "RawMemory_plus (data_m v) i = Inr (b, i)" "RawMemory_plus (data_m v) ?n = Inr (b, ?n)"
    using i room buf by (simp_all add: RawMemory_plus_def ptr_add_def)
  have lay: "layout h b = Some (length ss)"
    using blk by (rule layout_block)
  have lt: "?n < length ss"
  proof (cases "i < ?n")
    case False
    with run pos plus obtain g where "ConstructElement T (b, i) (Built (Some x)) h = Inr g"
      by (auto simp: Emplace_in_place_def end_it_def ptr_less_def Emplace_at_end_def
          split: sum.splits)
    from ConstructElement_layout[OF this] lay False i show ?thesis by simp
  next
    case True
    with run pos plus have sh: "Emplace_shift T (b, i) (Built (Some x)) (v, h) = (None, v', h')"
      by (simp add: Emplace_in_place_def end_it_def ptr_less_def)
    from True have bk: "ptr_sub (b, ?n) 1 = Inr (b, ?n - 1)"
      by (simp add: ptr_sub_def)
    from sh plus bk obtain g where "move_construct_at T (b, ?n - 1) (b, ?n) h = Inr g"
      by (auto simp: Emplace_shift_def split: sum.splits prod.splits option.splits)
    from move_construct_at_range[OF this] lay show ?thesis by simp
  qed
  let ?new = "overwrite i (Some x # slice i (?n - i) ss) ss"
  have res: "v' = v\<lparr>size_m := Suc ?n\<rparr> \<and> h' = set_block b ?new h"
  proof (cases "i < ?n")
    case False
    with i have e: "i = ?n" by simp
    have "ConstructElement T (b, ?n) (Built (Some x)) h = Inr (set_block b (ss[?n := Some x]) h)"
      using blk lt by (intro ConstructElement_at) simp_all
    with run pos plus e add lt show ?thesis
      by (simp add: Emplace_in_place_def end_it_def ptr_less_def Emplace_at_end_def
          slice_0 overwrite_single)
  next
    case True
    then obtain m where nm: "?n = Suc (i + m)"
      by (metis less_iff_Suc_add)
    from run pos plus True have sh: "Emplace_shift T (b, i) (Built (Some x)) (v, h) = (None, v', h')"
      by (simp add: Emplace_in_place_def end_it_def ptr_less_def)
    have "v' = v\<lparr>size_m := Suc ?n\<rparr> \<and>
          h' = set_block b (overwrite i (Some x # slice i (Suc m) ss) ss) h"
      using room lt live add nm
      by (intro Emplace_shift_works[OF blk buf nm _ _ _ vs _ sh]) simp_all
    moreover have "?n - i = Suc m" using nm by simp
    ultimately show ?thesis by simp
  qed
  have lnew: "length (Some x # slice i (?n - i) ss) = Suc (?n - i)"
    using i lt by (simp add: length_slice)
  have len': "length ?new = length ss"
    using lnew i lt by (simp add: length_overwrite)
  have blk': "block_of h' b = Some ?new"
    using res blk by (simp add: block_of_set_block_same)
  have tk: "take (Suc ?n) ?new = take i ss @ [Some x] @ slice i (?n - i) ss"
    using take_overwrite[of i "Some x # slice i (?n - i) ss" ss] lnew i lt by simp
  have "vector_ok h' v' \<and> slots h' v' = take i (slots h v) @ [Some x] @ drop i (slots h v)"
    using res buf blk' len' len lt lim tk
    by (intro inserted_block[OF ok i, where ss = ss and v' = v' and b' = b and h' = h' and x = x])
      (simp_all add: blk)
  moreover have "read_slot h' (ptr_add (begin_it v') i) = Inr x"
    using res buf blk' len' i lt lnew
    by (simp add: ptr_add_def begin_it_def GetAddress_def read_slot_def nth_overwrite)
  ultimately show ?thesis using res by simp
qed

lemma slice_replicate: "i + n \<le> m \<Longrightarrow> slice i n (replicate m a) = replicate n a"
  by (simp add: slice_def min_def)

lemma destroy_n_obs:
  assumes "block_of h b = Some ss" "i + n \<le> length ss" "None \<notin> set (slice i n ss)"
  shows "\<exists>g. destroy_n (b, i) n h = Inr g \<and>
           (\<forall>c. c \<noteq> b \<longrightarrow> block_of g c = block_of h c)"
  using destroy_n_block[OF assms]
  by (simp add: block_of_set_block)

lemma Emplace_grow_empty:
  assumes ok: "vector_ok h v" and empty: "capacity_m (data_m v) = 0"
    and run: "Emplace_grow T (ptr_add (begin_it v) 0) 0 (Built (Some x)) (v, h) = (None, v', h')"
  shows "v' = \<lparr>data_m = \<lparr>buffer_m = (Suc (allocated h), 0), capacity_m = 1\<rparr>, size_m = 1\<rparr> \<and>
         block_of h' (Suc (allocated h)) = Some [Some x]"
proof -
  from ok empty have z: "size_m v = 0" "buffer_m (data_m v) = nullptr"
    by (simp_all add: vector_ok_empty)
  have dist: "distance (begin_it v) (ptr_add (begin_it v) 0) = Inr 0"
    by (simp add: distance_def ptr_add_def)
  from Emplace_grow_room[OF _ dist run] z empty
  have k1: "size_mul (Suc 0) (sizeof T) div sizeof T = Suc 0"
    by auto
  have lim: "\<not> limit h < size_mul (Suc 0) (sizeof T)"
    using run z by (auto simp: Emplace_grow_def RawMemory_ctor_pos split: if_splits)
  have b1: "block_of (with_new_block (Suc 0) h) (Suc (allocated h)) = Some [None]"
    by (simp add: block_of_with_new_block)
  have c: "ConstructElement T (Suc (allocated h), 0) (Built (Some x)) (with_new_block (Suc 0) h) =
      Inr (set_block (Suc (allocated h)) [Some x] (with_new_block (Suc 0) h))"
    using ConstructElement_at[OF b1, of 0 T x] by simp
  from run z lim empty c k1 have
    "v' = \<lparr>data_m = \<lparr>buffer_m = (Suc (allocated h), 0), capacity_m = 1\<rparr>, size_m = 1\<rparr>"
    "h' = set_block (Suc (allocated h)) [Some x] (with_new_block (Suc 0) h)"
    by (auto simp: Emplace_grow_def RawMemory_ctor_pos RawMemory_plus_def ptr_add_def begin_it_def
        GetAddress_def nullptr_def distance_def UninitCopyOrMove_0 end_it_def size_add_def
        size_max_def RawMemory_Swap_def RawMemory_dtor_def Deallocate_def
        cong: RawMemory.fold_congs)
  then show ?thesis
    by (simp add: block_of_set_block allocated_with_new_block)
qed

lemma Emplace_grow_full:
  assumes ok: "vector_ok h v" and vs: "value_semantics T" and i: "i \<le> size_m v"
    and full: "capacity_m (data_m v) = size_m v" and pos: "0 < size_m v"
    and run: "Emplace_grow T (ptr_add (begin_it v) i) i (Built (Some x)) (v, h) = (None, v', h')"
  shows "\<exists>ss ss'. block_of h (fst (buffer_m (data_m v))) = Some ss \<and>
           buffer_m (data_m v') = (Suc (allocated h), 0) \<and>
           capacity_m (data_m v') = size_mul (size_m v) 2 \<and> size_m v' = Suc (size_m v) \<and>
           block_of h' (Suc (allocated h)) = Some ss' \<and>
           Suc (size_m v) \<le> length ss' \<and> length ss' \<le> capacity_m (data_m v') \<and>
           take (Suc (size_m v)) ss' = take i ss @ [Some x] @ slice i (size_m v - i) ss \<and>
           ss' ! i = Some x"
proof -
  define n where "n = size_m v"
  define c where "c = size_mul n 2"
  define k where "k = size_mul c (sizeof T) div sizeof T"
  define b' where "b' = Suc (allocated h)"
  define R :: "'a option list" where "R = replicate k None"
  define h1 where "h1 = with_new_block k h"
  define mem where "mem = \<lparr>buffer_m = (b', 0), capacity_m = c\<rparr>"
  from pos full have "0 < capacity_m (data_m v)" by simp
  from vector_ok_block[OF ok this] obtain b ss where
    buf: "buffer_m (data_m v) = (b, 0)" and blk: "block_of h b = Some ss"
    and len: "length ss = n" and live: "None \<notin> set (slice 0 n ss)"
    by (auto simp: full n_def)
  from i pos have n: "i \<le> n" "0 < n" "size_m v = n" by (simp_all add: n_def)
  have dist0: "distance (begin_it v) (ptr_add (begin_it v) i) = Inr i"
    by (simp add: distance_def ptr_add_def)
  from full have "size_m v \<le> capacity_m (data_m v)" by simp
  from Emplace_grow_room[OF this dist0 run] pos
  have room: "Suc n \<le> k" "k \<le> c" "k < size_max"
    by (auto simp: n_def c_def k_def)
  then have ar: "size_add n 1 = Suc n" "size_add i 1 = Suc i"
    using n by (simp_all add: size_add_small)
  from room have cpos: "0 < c" by simp
  have lim: "\<not> limit h < size_mul c (sizeof T)"
    using n cpos run
    by (auto simp: Emplace_grow_def RawMemory_ctor_pos c_def split: if_splits)
  have ctor: "RawMemory_ctor (sizeof T) (size_mul n 2) h = (Inr mem, h1)"
    using lim cpos by (simp add: RawMemory_ctor_pos mem_def h1_def b'_def k_def c_def)
  from blk have ne: "b \<noteq> b'" by (auto simp: b'_def dest: block_of_SomeD)
  have B1: "block_of h1 b = Some ss" and D1: "block_of h1 b' = Some R"
    using blk ne by (simp_all add: h1_def b'_def R_def block_of_with_new_block)
  have addr: "GetAddress (data_m v) = (b, 0)" "begin_it v = (b, 0)" "GetAddress mem = (b', 0)"
    "ptr_add (b, 0) i = (b, i)"
    using buf by (simp_all add: GetAddress_def begin_it_def mem_def ptr_add_def)
  have pl: "RawMemory_plus mem i = Inr (b', i)" "RawMemory_plus mem (Suc i) = Inr (b', Suc i)"
    using n room by (simp_all add: RawMemory_plus_def mem_def ptr_add_def)
  have en: "end_it v = Inr (b, n)"
    using n full buf by (simp add: end_it_def RawMemory_plus_def ptr_add_def)
  have dist: "distance (b, 0) (b, i) = Inr i" "distance (b, i) (b, n) = Inr (n - i)"
    using n by (simp_all add: distance_def)
  have nz: "n \<noteq> 0" using n by simp
  note known = nz n(3) ar ctor addr pl en dist
  obtain r1 h2 where u1: "UninitCopyOrMove T (b, 0) i (b', 0) h1 = (r1, h2)"
    by (cases "UninitCopyOrMove T (b, 0) i (b', 0) h1") auto
  from known u1 run have r1: "r1 = None"
    by (cases r1) (simp_all add: Emplace_grow_def)
  have live1: "None \<notin> set (slice 0 i ss)"
    using slice_subset[of 0 0 i n ss] live n by auto
  from UninitCopyOrMove_obs[OF B1 D1 ne _ _ live1 _ vs u1[unfolded r1]] n len room
  obtain ms1 where ms1: "length ms1 = i" "None \<notin> set ms1"
    and D2: "block_of h2 b' = Some (overwrite 0 (slice 0 i ss) R)"
    and B2: "block_of h2 b = Some (overwrite 0 ms1 ss)"
    by (auto simp: R_def slice_replicate)
  define sd2 where "sd2 = overwrite 0 (slice 0 i ss) R"
  define ss2 where "ss2 = overwrite 0 ms1 ss"
  have lsl: "length (slice 0 i ss) = i" using n len by (simp add: length_slice)
  have len_sd2: "length sd2 = k"
    using lsl n room by (simp add: sd2_def R_def length_overwrite)
  have len_ss2: "length ss2 = n"
    using ms1 n len by (simp add: ss2_def length_overwrite)
  have ce: "ConstructElement T (b', i) (Built (Some x)) h2 = Inr (set_block b' (sd2[i := Some x]) h2)"
    using D2 len_sd2 n room by (intro ConstructElement_at) (simp_all add: sd2_def)
  define sd3 where "sd3 = sd2[i := Some x]"
  define h3 where "h3 = set_block b' sd3 h2"
  have D3: "block_of h3 b' = Some sd3" and B3: "block_of h3 b = Some ss2"
    using D2 B2 ne
    by (simp_all add: h3_def ss2_def block_of_set_block_same block_of_set_block_other)
  obtain r4 h4 where u4: "UninitCopyOrMove T (b, i) (n - i) (b', Suc i) h3 = (r4, h4)"
    by (cases "UninitCopyOrMove T (b, i) (n - i) (b', Suc i) h3") auto
  from known u1 r1 ce u4 run have r4: "r4 = None"
    by (cases r4) (simp_all add: Emplace_grow_def h3_def sd3_def)
  have sl2: "slice i (n - i) ss2 = slice i (n - i) ss"
    unfolding ss2_def using ms1 n len by (intro slice_overwrite_outside) simp_all
  have live2: "None \<notin> set (slice i (n - i) ss2)"
    using slice_subset[of 0 i "n - i" n ss] live n by (auto simp: sl2)
  have fresh: "slice (Suc i) (n - i) sd3 = replicate (n - i) None"
  proof -
    have "slice (Suc i) (n - i) sd3 = slice (Suc i) (n - i) sd2"
      unfolding sd3_def by (intro slice_update_outside) simp
    also have "\<dots> = slice (Suc i) (n - i) R"
      unfolding sd2_def using lsl n room by (intro slice_overwrite_outside) (simp_all add: R_def)
    also have "\<dots> = replicate (n - i) None"
      unfolding R_def using n room by (intro slice_replicate) simp
    finally show ?thesis .
  qed
  from UninitCopyOrMove_obs[OF B3 D3 ne _ _ live2 fresh vs u4[unfolded r4]] n len_ss2 len_sd2 room
  obtain ms2 where ms2: "length ms2 = n - i" "None \<notin> set ms2"
    and D4: "block_of h4 b' = Some (overwrite (Suc i) (slice i (n - i) ss) sd3)"
    and B4: "block_of h4 b = Some (overwrite i ms2 ss2)"
    by (auto simp: sd3_def sl2)
  have all: "overwrite i ms2 ss2 = ms1 @ ms2"
  proof -
    have "ss2 = ms1 @ drop i ss"
      using ms1 by (simp add: ss2_def overwrite_0)
    then have "overwrite i ms2 ss2 = ms1 @ overwrite 0 ms2 (drop i ss)"
      using overwrite_append[of ms1 0 ms2 "drop i ss"] ms1 by simp
    then show ?thesis using ms2 len by (simp add: overwrite_0)
  qed
  have live4: "None \<notin> set (slice 0 n (overwrite i ms2 ss2))"
    using ms1 ms2 n by (simp add: all slice_def)
  from destroy_n_obs[OF B4 _ live4] ms1 ms2 n all
  obtain h5 where d5: "destroy_n (b, 0) n h4 = Inr h5"
    and D5: "block_of h5 b' = block_of h4 b'"
    using ne by auto
  from known u1 r1 ce u4 r4 d5 run
  have out: "buffer_m (data_m v') = (b', 0) \<and> capacity_m (data_m v') = c \<and>
      size_m v' = Suc n"
    "h' = Deallocate (b, 0) h5"
    using buf full n
    by (auto simp: Emplace_grow_def h3_def sd3_def RawMemory_Swap_def mem_def RawMemory_dtor_def)
  have v': "buffer_m (data_m v') = (Suc (allocated h), 0) \<and>
      capacity_m (data_m v') = size_mul (size_m v) 2 \<and> size_m v' = Suc (size_m v)"
    using out(1) n by (simp add: b'_def c_def)
  define ss' where "ss' = overwrite (Suc i) (slice i (n - i) ss) sd3"
  have D': "block_of h' b' = Some ss'"
    using out(2) D5 D4 ne
    by (simp add: block_of_Deallocate ss'_def)
  have lz: "length (slice i (n - i) ss) = n - i"
    using n len by (simp add: length_slice)
  have len_sd3: "length sd3 = k" by (simp add: sd3_def len_sd2)
  have len': "length ss' = k"
    unfolding ss'_def using lz n len_sd3 room by (simp add: length_overwrite)
  have tk2: "take i sd2 = take i ss"
    using take_overwrite[of 0 "slice 0 i ss" R] lsl n room
    by (simp add: sd2_def R_def slice_0_take)
  have tk3: "take (Suc i) sd3 = take i ss @ [Some x]"
    using n len_sd2 room by (simp add: sd3_def take_Suc_conv_app_nth tk2)
  have "take (Suc i + length (slice i (n - i) ss)) ss' = take (Suc i) sd3 @ slice i (n - i) ss"
    unfolding ss'_def using lz n len_sd3 room by (intro take_overwrite) simp
  then have tk: "take (Suc n) ss' = take i ss @ [Some x] @ slice i (n - i) ss"
    using lz n by (simp add: tk3)
  have at: "ss' ! i = Some x"
    using lz n len_sd3 len_sd2 room by (simp add: ss'_def nth_overwrite sd3_def)
  from blk buf v' D' len' room tk at show ?thesis
    by (auto simp: n_def b'_def c_def)
qed

text \<open>
  \<^verbatim>\<open>Emplace\<close> with arguments from which the constructor builds \<open>x\<close>, at index \<open>i\<close> of a
  well-formed container.
\<close>

lemma Emplace_works:
  assumes ok: "vector_ok h v" and vs: "value_semantics T" and i: "i \<le> size_m v"
    and run: "Emplace T (ptr_add (begin_it v) i) (Built (Some x)) (v, h) = (Inr r, v', h')"
  shows "vector_ok h' v' \<and> slots h' v' = take i (slots h v) @ [Some x] @ drop i (slots h v) \<and>
         size_m v' = Suc (size_m v) \<and> r = ptr_add (begin_it v') i \<and> read_slot h' r = Inr x"
proof -
  let ?pos = "ptr_add (begin_it v) i"
  from ok have sz: "size_m v \<le> capacity_m (data_m v)" "capacity_m (data_m v) < size_max"
    by (simp_all add: vector_ok_def)
  have dist: "distance (begin_it v) ?pos = Inr i"
    by (simp add: distance_def ptr_add_def)
  show ?thesis
  proof (cases "capacity_m (data_m v) = size_m v")
    case True
    with run dist have g: "Emplace_grow T ?pos i (Built (Some x)) (v, h) = (None, v', h')"
      and r: "r = ptr_add (begin_it v') i"
      by (auto simp: Emplace_def RawMemory_Capacity_def begin_it_def
          split: prod.splits option.splits)
    show ?thesis
    proof (cases "size_m v = 0")
      case z: True
      with i have i0: "i = 0" by simp
      from True z have empty: "capacity_m (data_m v) = 0" by simp
      from Emplace_grow_empty[OF ok empty g[unfolded i0]]
      have v': "v' = \<lparr>data_m = \<lparr>buffer_m = (Suc (allocated h), 0), capacity_m = 1\<rparr>, size_m = 1\<rparr>"
        and blk': "block_of h' (Suc (allocated h)) = Some [Some x]"
        by simp_all
      have "vector_ok h' v' \<and> slots h' v' = take i (slots h v) @ [Some x] @ drop i (slots h v)"
        using v' blk' z empty
        by (intro inserted_block[OF ok i, where ss = "[]" and b' = "Suc (allocated h)"
              and ss' = "[Some x]" and x = x])
          (simp_all add: slice_def size_max_def)
      moreover have "read_slot h' r = Inr x"
        using r v' blk' i0
        by (simp add: begin_it_def GetAddress_def ptr_add_def read_slot_def)
      ultimately show ?thesis using r v' z by simp
    next
      case False
      then have pos: "0 < size_m v" by simp
      from Emplace_grow_full[OF ok vs i True pos g] obtain ss ss' where
        old: "block_of h (fst (buffer_m (data_m v))) = Some ss"
        and v': "buffer_m (data_m v') = (Suc (allocated h), 0)"
          "capacity_m (data_m v') = size_mul (size_m v) 2" "size_m v' = Suc (size_m v)"
        and blk': "block_of h' (Suc (allocated h)) = Some ss'"
          "Suc (size_m v) \<le> length ss'" "length ss' \<le> capacity_m (data_m v')"
        and tk: "take (Suc (size_m v)) ss' = take i ss @ [Some x] @ slice i (size_m v - i) ss"
        and at: "ss' ! i = Some x"
        by blast
      have small: "capacity_m (data_m v') < size_max"
        by (simp add: v' size_mul_def size_max_def)
      have "vector_ok h' v' \<and> slots h' v' = take i (slots h v) @ [Some x] @ drop i (slots h v)"
        using old v' blk' tk pos small
        by (intro inserted_block[OF ok i, where ss = ss and b' = "Suc (allocated h)" and ss' = ss'
              and x = x])
          simp_all
      moreover have "read_slot h' r = Inr x"
        using r v' blk' at i pos
        by (simp add: begin_it_def GetAddress_def ptr_add_def read_slot_def)
      ultimately show ?thesis using r v' by simp
    qed
  next
    case False
    with sz have room: "size_m v < capacity_m (data_m v)" by simp
    with sz have add: "size_add (size_m v) 1 = Suc (size_m v)"
      by (simp add: size_add_small)
    from room run dist add False
    have g: "Emplace_in_place T ?pos i (Built (Some x)) (v, h) = (None, v', h')"
      and r: "r = ptr_add (begin_it v') i"
      by (auto simp: Emplace_def RawMemory_Capacity_def begin_it_def
          split: prod.splits option.splits)
    from Emplace_in_place_works[OF ok vs i room g] r show ?thesis by simp
  qed
qed

lemma elements_inserted:
  assumes ok: "vector_ok h v" and ok': "vector_ok h' v'"
    and sl: "slots h' v' = take i (slots h v) @ [Some x] @ drop i (slots h v)"
  shows "elements h' v' = take i (elements h v) @ [Inr x] @ drop i (elements h v)"
  using elements_slots[OF ok] elements_slots[OF ok'] sl
  by (simp add: take_map drop_map)
section \<open>Arguments bound to objects\<close>

text \<open>
  An argument bound to an object outside the blocks is an argument from which the
  constructor builds a copy of that object, whenever it is called.
\<close>

lemma construct_Lvalue_Outside:
  "construct T (Lvalue (Outside z)) g = construct T (Built (copy_ctor T z)) g"
  by (simp split: option.splits)

lemma construct_Rvalue_Outside:
  "construct T (Rvalue (Outside z)) g = construct T (Built (map_option fst (move_ctor T z))) g"
  by (auto split: option.splits)

lemma Emplace_args_cong:
  assumes "\<And>g. construct T a g = construct T a' g"
  shows "Emplace T pos a s = Emplace T pos a' s"
proof -
  have ce: "ConstructElement T buf a g = ConstructElement T buf a' g" for buf g
    by (simp add: ConstructElement_def assms)
  show ?thesis
    unfolding Emplace_def Emplace_grow_def Emplace_in_place_def Emplace_shift_def
      Emplace_at_end_def ce assms ..
qed

lemma Emplace_Lvalue_Outside:
  "Emplace T pos (Lvalue (Outside z)) s = Emplace T pos (Built (copy_ctor T z)) s"
  by (rule Emplace_args_cong) (rule construct_Lvalue_Outside)

lemma Emplace_Rvalue_Outside:
  "Emplace T pos (Rvalue (Outside z)) s = Emplace T pos (Built (map_option fst (move_ctor T z))) s"
  by (rule Emplace_args_cong) (rule construct_Rvalue_Outside)

text \<open>
  An lvalue argument, bound to any object (also to an element of the container that is
  called): when \<^verbatim>\<open>Emplace\<close> returns, it has done what it does for arguments from which
  the constructor builds the value \<open>y\<close> that the copy constructor produced when it was
  called.
\<close>

lemma ConstructElement_Lvalue:
  assumes "ConstructElement T buf (Lvalue ob) g = Inr g'"
  shows "\<exists>y. construct T (Lvalue ob) g = Inr (y, g) \<and> ConstructElement T buf (Built (Some y)) g = Inr g'"
  using assms by (auto simp: ConstructElement_def split: sum.splits option.splits)

lemma Emplace_grow_Lvalue:
  assumes "Emplace_grow T pos indent (Lvalue ob) (v, h) = (None, v', h')"
  shows "\<exists>y. Emplace_grow T pos indent (Built (Some y)) (v, h) = (None, v', h')"
proof -
  from assms obtain mem h1 place n_before h2 h3 where
    ctor: "RawMemory_ctor (sizeof T) (if size_m v = 0 then 1 else size_mul (size_m v) 2) h = (Inr mem, h1)"
    and pl: "RawMemory_plus mem indent = Inr place"
    and d1: "distance (begin_it v) pos = Inr n_before"
    and u1: "UninitCopyOrMove T (GetAddress (data_m v)) n_before (GetAddress mem) h1 = (None, h2)"
    and ce: "ConstructElement T place (Lvalue ob) h2 = Inr h3"
    by (auto simp: Emplace_grow_def split: prod.splits sum.splits option.splits)
  from ConstructElement_Lvalue[OF ce] obtain y where
    ce': "ConstructElement T place (Built (Some y)) h2 = Inr h3" by blast
  have "Emplace_grow T pos indent (Built (Some y)) (v, h) = Emplace_grow T pos indent (Lvalue ob) (v, h)"
    by (simp add: Emplace_grow_def ctor pl d1 u1 ce ce')
  with assms show ?thesis by auto
qed

lemma Emplace_in_place_Lvalue:
  assumes "Emplace_in_place T pos indent (Lvalue ob) (v, h) = (None, v', h')"
  shows "\<exists>y. Emplace_in_place T pos indent (Built (Some y)) (v, h) = (None, v', h')"
proof -
  from assms obtain place e where
    pl: "RawMemory_plus (data_m v) indent = Inr place" and en: "end_it v = Inr e"
    by (auto simp: Emplace_in_place_def split: sum.splits)
  show ?thesis
  proof (cases "ptr_less pos e")
    case True
    with assms pl en have sh: "Emplace_shift T place (Lvalue ob) (v, h) = (None, v', h')"
      by (simp add: Emplace_in_place_def)
    then obtain y where c: "construct T (Lvalue ob) h = Inr (y, h)"
      by (auto simp: Emplace_shift_def split: sum.splits option.splits)
    have "Emplace_shift T place (Built (Some y)) (v, h) = Emplace_shift T place (Lvalue ob) (v, h)"
      unfolding Emplace_shift_def using c by simp
    with sh True pl en show ?thesis
      by (intro exI[of _ y]) (simp add: Emplace_in_place_def)
  next
    case False
    with assms pl en obtain g where ce: "ConstructElement T place (Lvalue ob) h = Inr g"
      by (auto simp: Emplace_in_place_def Emplace_at_end_def split: sum.splits)
    from ConstructElement_Lvalue[OF ce] obtain y where
      ce': "ConstructElement T place (Built (Some y)) h = Inr g" by blast
    from assms False pl en ce ce' show ?thesis
      by (intro exI[of _ y]) (simp add: Emplace_in_place_def Emplace_at_end_def)
  qed
qed

lemma Emplace_Lvalue:
  assumes "Emplace T pos (Lvalue ob) (v, h) = (Inr r, v', h')"
  shows "\<exists>y. Emplace T pos (Built (Some y)) (v, h) = (Inr r, v', h')"
proof -
  from assms obtain indent where d: "distance (begin_it v) pos = Inr indent"
    by (auto simp: Emplace_def split: sum.splits)
  show ?thesis
  proof (cases "RawMemory_Capacity (data_m v) < size_add (size_m v) 1
                    \<or> RawMemory_Capacity (data_m v) = size_m v")
    case True
    with assms d have g: "Emplace_grow T pos indent (Lvalue ob) (v, h) = (None, v', h')"
      and r: "r = ptr_add (GetAddress (data_m v')) indent"
      by (auto simp: Emplace_def split: prod.splits option.splits)
    from Emplace_grow_Lvalue[OF g] obtain y where
      "Emplace_grow T pos indent (Built (Some y)) (v, h) = (None, v', h')" by blast
    with True d r show ?thesis
      by (intro exI[of _ y]) (simp add: Emplace_def)
  next
    case False
    with assms d have g: "Emplace_in_place T pos indent (Lvalue ob) (v, h) = (None, v', h')"
      and r: "r = ptr_add (GetAddress (data_m v')) indent"
      by (auto simp: Emplace_def split: prod.splits option.splits)
    from Emplace_in_place_Lvalue[OF g] obtain y where
      "Emplace_in_place T pos indent (Built (Some y)) (v, h) = (None, v', h')" by blast
    with False d r show ?thesis
      by (intro exI[of _ y]) (simp add: Emplace_def)
  qed
qed

lemma Emplace_lvalue_inserts:
  assumes ok: "vector_ok h v" and vs: "value_semantics T" and i: "i \<le> Size v"
    and run: "Emplace T (ptr_add (begin_it v) i) (Lvalue ob) (v, h) = (Inr r, v', h')"
  shows "\<exists>y. Size v' = Size v + 1 \<and>
           elements h' v' = take i (elements h v) @ [Inr y] @ drop i (elements h v) \<and>
           vector_ok h' v' \<and> r = ptr_add (begin_it v') i \<and> read_slot h' r = Inr y"
proof -
  from Emplace_Lvalue[OF run] obtain y where
    b: "Emplace T (ptr_add (begin_it v) i) (Built (Some y)) (v, h) = (Inr r, v', h')"
    by blast
  from i have "i \<le> size_m v" by (simp add: Size_def)
  from Emplace_works[OF ok vs this b]
  have ok': "vector_ok h' v'"
    and sl: "slots h' v' = take i (slots h v) @ [Some y] @ drop i (slots h v)"
    and sz: "size_m v' = Suc (size_m v)"
    and r: "r = ptr_add (begin_it v') i" "read_slot h' r = Inr y"
    by blast+
  from elements_inserted[OF ok ok' sl] ok' sz r show ?thesis
    by (intro exI[of _ y]) (auto simp: Size_def)
qed

section \<open>Pushing objects that lie outside the blocks\<close>

lemma Emplace_None:
  assumes "Emplace T pos (Built None) (v, h) = (Inr r, v', h')"
  shows False
proof -
  have g: "Emplace_grow T pos indent (Built None) (v, h) \<noteq> (None, v', h')" for indent
    by (auto simp: Emplace_grow_def ConstructElement_def split: prod.splits sum.splits option.splits)
  have p: "Emplace_in_place T pos indent (Built None) (v, h) \<noteq> (None, v', h')" for indent
    by (auto simp: Emplace_in_place_def Emplace_shift_def Emplace_at_end_def ConstructElement_def
        split: prod.splits sum.splits option.splits)
  from assms show False
    using g p
    by (auto simp: Emplace_def split: sum.splits prod.splits option.splits if_splits)
qed

lemma Emplace_inserts_elements:
  assumes "vector_ok h v" "value_semantics T"
    and "Emplace T (ptr_add (begin_it v) (size_m v)) (Built (Some x)) (v, h) = (Inr r, v', h')"
  shows "vector_ok h' v' \<and> size_m v' = Suc (size_m v) \<and>
         elements h' v' = take (size_m v) (elements h v) @ [Inr x] @ drop (size_m v) (elements h v)"
proof -
  from Emplace_works[OF assms(1,2) le_refl assms(3)]
  have ok': "vector_ok h' v'"
    and sl: "slots h' v' = take (size_m v) (slots h v) @ [Some x] @ drop (size_m v) (slots h v)"
    and sz: "size_m v' = Suc (size_m v)"
    by simp_all
  from elements_inserted[OF assms(1) ok' sl] ok' sz show ?thesis by simp
qed

lemma PushBack_works:
  assumes ok: "vector_ok h v" and vs: "value_semantics T"
    and out: "pushed_value p = Some x"
    and run: "PushBack T p (v, h) = (None, v', h')"
  shows "vector_ok h' v' \<and> Size v' = Size v + 1 \<and> elements h' v' = elements h v @ [Inr x]"
proof -
  from ok have "size_m v \<le> capacity_m (data_m v)" by (simp add: vector_ok_def)
  then have e: "end_it v = Inr (ptr_add (begin_it v) (size_m v))"
    by (simp add: end_it_def RawMemory_plus_def begin_it_def GetAddress_def)
  define made where "made = (case p of ByCopy ob \<Rightarrow> copy_ctor T x | ByMove ob \<Rightarrow> map_option fst (move_ctor T x))"
  from out have p: "p = ByCopy (Outside x) \<or> p = ByMove (Outside x)"
    by (cases p rule: pushed_value.cases) simp_all
  from run e p obtain r where
    em: "Emplace T (ptr_add (begin_it v) (size_m v)) (Built made) (v, h) = (Inr r, v', h')"
    by (auto simp: PushBack_copy_def PushBack_move_def drop_result_def EmplaceBack_def made_def
        Emplace_Lvalue_Outside Emplace_Rvalue_Outside
        split: prod.splits sum.splits)
  with Emplace_None obtain y where y: "made = Some y"
    by (cases made) blast+
  from p y vs have "y = x"
    by (auto simp: made_def dest: value_semantics_copy_ctor value_semantics_move_ctor)
  with em y have "Emplace T (ptr_add (begin_it v) (size_m v)) (Built (Some x)) (v, h) =
      (Inr r, v', h')"
    by simp
  from Emplace_inserts_elements[OF ok vs this] elements_slots[OF ok] show ?thesis
    by (simp add: Size_def)
qed

lemma push_all_works:
  assumes "vector_ok h v" "value_semantics T" "list_all2 (\<lambda>p x. pushed_value p = Some x) ps xs"
    "push_all T ps (v, h) = (None, v', h')"
  shows "vector_ok h' v' \<and> Size v' = Size v + length ps \<and>
         elements h' v' = elements h v @ map Inr xs"
  using assms(3,1,4)
proof (induction ps xs arbitrary: v h rule: list_all2_induct)
  case Nil
  then show ?case by simp
next
  case (Cons p ps x xs)
  obtain r1 v1 h1 where p: "PushBack T p (v, h) = (r1, v1, h1)"
    by (cases "PushBack T p (v, h)") auto
  with Cons.prems(2) have r1: "r1 = None" and rest: "push_all T ps (v1, h1) = (None, v', h')"
    by (cases r1; simp)+
  from PushBack_works[OF Cons.prems(1) assms(2) Cons.hyps(1) p[unfolded r1]]
  have ok1: "vector_ok h1 v1" and sz1: "Size v1 = Size v + 1"
    and el1: "elements h1 v1 = elements h v @ [Inr x]"
    by simp_all
  from Cons.IH[OF ok1 rest] sz1 el1 show ?case by simp
qed


lemma elements_default: "elements h Vector_default = []"
  by (simp add: elements_def Size_def Vector_default_def)

lemma push_all_on_empty:
  assumes "value_semantics T" "list_all2 (\<lambda>p x. pushed_value p = Some x) ps xs"
    and "push_all T ps (Vector_default, h) = (None, v', h')"
  shows "Size v' = length ps \<and> elements h' v' = map Inr xs"
proof -
  have "Size Vector_default = 0"
    by (simp add: Size_def Vector_default_def)
  with push_all_works[OF vector_ok_default assms] show ?thesis
    by (simp add: elements_default)
qed

section \<open>Erasure\<close>

lemma Erase_ill_formed:
  assumes "\<not> is_nothrow_move_constructible T" "is_copy_constructible T"
  shows "Erase T pos (v, h) = (Inl IllFormed, v, h)"
  using assms by (simp add: Erase_def Erase_compiles_def deduce_InputIt_def)

lemma move_assign_at_ignores_copy_assign:
  "move_assign_at (T\<lparr>copy_assign := f\<rparr>) p q h = move_assign_at T p q h"
  by (simp add: move_assign_at_def cong: sum.case_cong option.case_cong)

lemma move_n_ignores_copy_assign:
  "move_n (T\<lparr>copy_assign := f\<rparr>) p n q h = move_n T p n q h"
  by (induction n arbitrary: p q h)
    (simp_all add: move_assign_at_ignores_copy_assign cong: sum.case_cong)

lemma Erase_by_move:
  assumes "is_nothrow_move_constructible T \<or> \<not> is_copy_constructible T"
  shows "Erase (T\<lparr>copy_assign := f\<rparr>) pos s = Erase T pos s"
  using assms
  by (cases s)
    (auto simp: Erase_def Erase_compiles_def std_move_def move_n_ignores_copy_assign
      cong: sum.case_cong)

text \<open>
  \<^verbatim>\<open>Erase\<close> at the index \<open>i\<close> of a live element of a well-formed container, when it
  returns: only a type for which the first branch is compiled gets that far.
\<close>

lemma Erase_works:
  assumes ok: "vector_ok h v" and vs: "value_semantics T" and i: "i < size_m v"
    and run: "Erase T (ptr_add (begin_it v) i) (v, h) = (Inr r, v', h')"
  shows "(is_nothrow_move_constructible T \<or> \<not> is_copy_constructible T) \<and>
         vector_ok h' v' \<and> slots h' v' = take i (slots h v) @ drop (Suc i) (slots h v) \<and>
         size_m v' = size_m v - 1 \<and> data_m v' = data_m v \<and> r = ptr_add (begin_it v) i \<and>
         read_slot h' (ptr_add (begin_it v) (size_m v - 1)) = Inl PreconditionViolation"
proof -
  have mv: "is_nothrow_move_constructible T \<or> \<not> is_copy_constructible T"
  proof (rule ccontr)
    assume "\<not> ?thesis"
    then have "Erase T (ptr_add (begin_it v) i) (v, h) = (Inl IllFormed, v, h)"
      by (intro Erase_ill_formed) simp_all
    with run show False by simp
  qed
  from ok i have sz: "size_m v \<le> capacity_m (data_m v)" and pos: "0 < capacity_m (data_m v)"
    and lim: "capacity_m (data_m v) < size_max"
    by (simp_all add: vector_ok_def)
  from vector_ok_block[OF ok pos] obtain b ss where
    buf: "buffer_m (data_m v) = (b, 0)" and blk: "block_of h b = Some ss"
    and len: "size_m v \<le> length ss" "length ss \<le> capacity_m (data_m v)"
    and live: "None \<notin> set (slice 0 (size_m v) ss)"
    by blast
  from i obtain m where nm: "size_m v = Suc (i + m)"
    by (metis less_iff_Suc_add)
  have addr: "begin_it v = (b, 0)" "ptr_add (b, 0) i = (b, i)" "ptr_add (b, i) 1 = (b, Suc i)"
    using buf by (simp_all add: begin_it_def GetAddress_def ptr_add_def)
  have en: "end_it v = Inr (b, Suc (i + m))"
    using sz buf nm by (simp add: end_it_def RawMemory_plus_def ptr_add_def)
  have dist: "distance (b, 0) (b, i) = Inr i" "distance (b, Suc i) (b, Suc (i + m)) = Inr m"
    by (simp_all add: distance_def)
  obtain r1 g where sh: "move_n T (b, Suc i) m (b, i) h = (r1, g)"
    by (cases "move_n T (b, Suc i) m (b, i) h") auto
  have er: "Erase T (b, i) (v, h) =
      (case move_n T (b, Suc i) m (b, i) h of
         (Some err, h1) \<Rightarrow> (Inl err, v, h1)
       | (None, h1) \<Rightarrow>
           (case PopBack (v, h1) of
              (Some err, s') \<Rightarrow> (Inl err, s')
            | (None, s') \<Rightarrow> (Inr (b, i), s')))"
    using addr en dist mv
    by (auto simp: Erase_def Erase_compiles_def std_move_def
        cong: prod.case_cong option.case_cong)
  from run addr er sh have r1: "r1 = None"
    by (cases r1) simp_all
  have im: "i + m < length ss" using nm len by simp
  have sub: "set (slice i (Suc m) ss) \<subseteq> set (slice 0 (size_m v) ss)"
    using nm by (intro slice_subset) simp_all
  with live have live1: "None \<notin> set (slice i (Suc m) ss)" by auto
  from move_n_block[OF blk im live1 vs sh[unfolded r1]]
  obtain m' where g: "g = set_block b (overwrite i (slice (Suc i) m ss @ [Some m']) ss) h"
    by blast
  define ss1 where "ss1 = overwrite i (slice (Suc i) m ss @ [Some m']) ss"
  have lys: "length (slice (Suc i) m ss @ [Some m']) = Suc m"
    using im by (simp add: length_slice)
  have len1: "length ss1 = length ss"
    using lys im by (simp add: ss1_def length_overwrite)
  have b1: "block_of g b = Some ss1"
    unfolding g ss1_def using blk by (rule block_of_set_block_same)
  have at1: "ss1 ! (i + m) = Some m'"
    using lys im by (simp add: ss1_def nth_overwrite nth_append length_slice)
  have pl: "RawMemory_plus (data_m v) (size_m v - 1) = Inr (b, i + m)"
    using nm sz buf by (simp add: RawMemory_plus_def ptr_add_def)
  have de: "Destroy (b, i + m) g = Inr (set_block b (ss1[i + m := None]) g)"
    using b1 at1 im len1 by (intro Destroy_at) simp_all
  from run addr er sh r1 pl de nm
  have out: "r = (b, i)" "v' = v\<lparr>size_m := i + m\<rparr>" "h' = set_block b (ss1[i + m := None]) h"
    by (auto simp: PopBack_def g set_block_twice)
  define ssF where "ssF = ss1[i + m := None]"
  have bF: "block_of h' b = Some ssF"
    using out(3) blk by (simp add: ssF_def block_of_set_block_same)
  have tk: "take (i + m) ssF = take i ss @ slice (Suc i) m ss"
  proof -
    have "take (i + m) ssF = take (i + m) ss1"
      by (simp add: ssF_def)
    also have "\<dots> = take (i + m) (take (i + Suc m) ss1)"
      by (simp add: min_def)
    also have "take (i + Suc m) ss1 = take i ss @ slice (Suc i) m ss @ [Some m']"
      using take_overwrite[of i "slice (Suc i) m ss @ [Some m']" ss] lys im
      by (simp add: ss1_def)
    also have "take (i + m) (take i ss @ slice (Suc i) m ss @ [Some m']) =
               take i ss @ slice (Suc i) m ss"
      using im by (simp add: length_slice)
    finally show ?thesis .
  qed
  have sl: "slots h v = take (Suc (i + m)) ss"
    using buf blk nm by (simp add: slots_def)
  have "slice (Suc i) m ss = drop (Suc i) (take (Suc (i + m)) ss)"
    using slice_drop_take[of "Suc i" "Suc (i + m)" ss] by simp
  with tk sl have eq: "take (i + m) ssF = take i (slots h v) @ drop (Suc i) (slots h v)"
    by (simp add: min_def)
  from elements_slots[OF ok] have "None \<notin> set (slots h v)" by simp
  moreover have "set (take i (slots h v)) \<subseteq> set (slots h v)"
    "set (drop (Suc i) (slots h v)) \<subseteq> set (slots h v)"
    by (simp_all add: set_take_subset set_drop_subset)
  ultimately have liveF: "None \<notin> set (take (i + m) ssF)"
    unfolding eq by auto
  have okF: "vector_ok h' v'"
    using out buf bF len len1 sz nm lim pos liveF
    by (intro vector_okI[of v' b h' ssF]) (simp_all add: ssF_def)
  have slF: "slots h' v' = take i (slots h v) @ drop (Suc i) (slots h v)"
    using out buf bF eq by (simp add: slots_def)
  have dead: "read_slot h' (ptr_add (begin_it v) (size_m v - 1)) = Inl PreconditionViolation"
    using bF nm addr im len1 by (simp add: ptr_add_def read_slot_def ssF_def)
  from mv okF slF out nm addr dead show ?thesis by simp
qed

lemma elements_erased:
  assumes ok: "vector_ok h v" and ok': "vector_ok h' v'"
    and sl: "slots h' v' = take i (slots h v) @ drop (Suc i) (slots h v)"
  shows "elements h' v' = take i (elements h v) @ drop (Suc i) (elements h v)"
  using elements_slots[OF ok] elements_slots[OF ok'] sl
  by (simp add: take_map drop_map)

lemma Erase_by_move_removes_one_element:
  assumes "vector_ok h v" "value_semantics T" "i < Size v"
    and "Erase T (ptr_add (begin_it v) i) (v, h) = (Inr r, v', h')"
  shows "Size v' = Size v - 1 \<and>
         elements h' v' = take i (elements h v) @ drop (Suc i) (elements h v) \<and>
         vector_ok h' v' \<and> r = ptr_add (begin_it v') i \<and>
         read_slot h' (ptr_add (begin_it v) (Size v - 1)) = Inl PreconditionViolation \<and>
         (\<forall>f. Erase (T\<lparr>copy_assign := f\<rparr>) (ptr_add (begin_it v) i) (v, h) = (Inr r, v', h'))"
proof -
  from assms(3) have i: "i < size_m v" by (simp add: Size_def)
  from Erase_works[OF assms(1,2) i assms(4)]
  have mv: "is_nothrow_move_constructible T \<or> \<not> is_copy_constructible T"
    and ok': "vector_ok h' v'"
    and sl: "slots h' v' = take i (slots h v) @ drop (Suc i) (slots h v)"
    and sz: "size_m v' = size_m v - 1" and d: "data_m v' = data_m v"
    and r: "r = ptr_add (begin_it v) i"
    and dead: "read_slot h' (ptr_add (begin_it v) (size_m v - 1)) = Inl PreconditionViolation"
    by blast+
  from d r have r': "r = ptr_add (begin_it v') i" by (simp add: begin_it_def)
  have policy: "\<forall>f. Erase (T\<lparr>copy_assign := f\<rparr>) (ptr_add (begin_it v) i) (v, h) = (Inr r, v', h')"
    using assms(4) mv by (simp add: Erase_by_move)
  from elements_erased[OF assms(1) ok' sl] ok' sz r' dead policy show ?thesis
    by (simp add: Size_def)
qed

section \<open>RawMemory: move transfer\<close>

text \<open>
  C2, as stated, for move assignment: the source would end in the empty state. It does
  not: a destination that holds block \<open>1\<close> with \<open>5\<close> slots hands that pair to the
  source.
\<close>

theorem RawMemory_move_assign_source_not_reset:
  "snd (RawMemory_move_assign \<lparr>buffer_m = (1, 0), capacity_m = 5\<rparr>
          \<lparr>buffer_m = (2, 0), capacity_m = 3\<rparr>) \<noteq> RawMemory_default"
  by (simp add: RawMemory_move_assign_def RawMemory_Swap_def RawMemory_default_def nullptr_def)

text \<open>
  C2, amended: move construction gives the new object the source's address and capacity
  and leaves the source empty (null address, capacity \<open>0\<close>); move assignment gives the
  destination the source's address and capacity and leaves the source with the pair the
  destination had before. Both are total functions of the two objects alone: they
  cannot fail and they touch no slot of the heap.
\<close>

theorem RawMemory_move_transfer:
  "fst (RawMemory_move_ctor src) = src
   \<and> snd (RawMemory_move_ctor src) = RawMemory_default
   \<and> buffer_m (snd (RawMemory_move_ctor src)) = nullptr
   \<and> capacity_m (snd (RawMemory_move_ctor src)) = 0
   \<and> fst (RawMemory_move_assign dst src) = src
   \<and> snd (RawMemory_move_assign dst src) = dst"
  by (simp add: RawMemory_move_ctor_def RawMemory_move_assign_def RawMemory_Swap_def
      RawMemory_default_def)

section \<open>Resize\<close>

lemma Resize_within_capacity:
  "size_m v \<le> n \<Longrightarrow> n \<le> Capacity v \<Longrightarrow> Resize T n (v, h) = (None, v\<lparr>size_m := n\<rparr>, h)"
  by (simp add: Resize_def Capacity_def)

text \<open>
  C1: \<^verbatim>\<open>Resize(4)\<close> on the container \<open>[99]\<close> with capacity \<open>4\<close> would leave the content
  \<open>[99, 0, 0, 0]\<close>. The code takes the second branch of \<^verbatim>\<open>Resize\<close>, which only sets
  \<^verbatim>\<open>size_\<close>: the heap is as before, and the three new indices name slots that hold no
  object.
\<close>

theorem Resize_within_capacity_constructs_nothing:
  "Resize int_type 4 (vec_99, heap_99) = (None, vec_99\<lparr>size_m := 4\<rparr>, heap_99) \<and>
   elements heap_99 (vec_99\<lparr>size_m := 4\<rparr>) =
     [Inr 99, Inl PreconditionViolation, Inl PreconditionViolation, Inl PreconditionViolation] \<and>
   elements heap_99 (vec_99\<lparr>size_m := 4\<rparr>) \<noteq> [Inr 99, Inr 0, Inr 0, Inr 0]"
  by (simp add: Resize_def RawMemory_Capacity_def example_defs elements_def at_def Size_def
      Vector_index_def RawMemory_index_def read_slot_def block_of_def ptr_add_def upt_rec)

section \<open>Reserve\<close>

text \<open>
  C5: \<^verbatim>\<open>Reserve(n)\<close> with \<open>n\<close> at most the capacity returns without an error and leaves
  the container and the heap exactly as they were, and with them the capacity, the
  size, the address of the buffer and every element.
\<close>

theorem Reserve_within_capacity_is_noop:
  assumes "n \<le> Capacity v"
  shows "Reserve T n (v, h) = (None, v, h) \<and>
         Capacity (fst (snd (Reserve T n (v, h)))) = Capacity v \<and>
         Size (fst (snd (Reserve T n (v, h)))) = Size v \<and>
         begin_it (fst (snd (Reserve T n (v, h)))) = begin_it v \<and>
         elements (snd (snd (Reserve T n (v, h)))) (fst (snd (Reserve T n (v, h)))) = elements h v"
  using assms by (simp add: Reserve_def Capacity_def)

theorem Reserve_within_capacity_is_noop_witness:
  "(3::nat) \<le> Capacity vec_123 \<and>
   Reserve int_type 3 (vec_123, heap_123) = (None, vec_123, heap_123)"
proof -
  have le: "(3::nat) \<le> Capacity vec_123"
    by (simp add: Capacity_def RawMemory_Capacity_def vec_123_def)
  from Reserve_within_capacity_is_noop[OF le, of int_type heap_123] le show ?thesis
    by blast
qed

section \<open>The invariant of the two sizes\<close>

text \<open>
  C9: \<^verbatim>\<open>size_ <= capacity\<close> holds for the container that each constructor builds, and
  an operation called on a container for which it holds leaves a container for which it
  holds, whether the operation returns or ends in an error. Nothing is assumed of the
  heap, of the arguments or of the element type. Where \<^verbatim>\<open>Emplace\<close> computes a new
  capacity \<^verbatim>\<open>size_ * 2\<close> that wraps around, or a byte size that does, the new block is
  too small for the elements, the relocation runs out of it and the operation does not
  return (lemma \<open>Emplace_grow_room\<close>).
\<close>

theorem size_invariant:
  "size_inv Vector_default \<and>
   (\<forall>v' h'. Vector_sized T n h = (Inr v', h') \<longrightarrow> size_inv v') \<and>
   (\<forall>v' h'. Vector_copy T other h = (Inr v', h') \<longrightarrow> size_inv v') \<and>
   (size_inv other \<longrightarrow>
      size_inv (fst (Vector_move other)) \<and> size_inv (snd (Vector_move other))) \<and>
   (size_inv v \<longrightarrow>
      (\<forall>r v' h'. copy_assignment T rhs (v, h) = (r, v', h') \<longrightarrow> size_inv v') \<and>
      (size_inv other \<longrightarrow>
         size_inv (fst (move_assignment v other)) \<and>
         size_inv (snd (move_assignment v other))) \<and>
      (size_inv other \<longrightarrow>
         size_inv (fst (Vector_Swap v other)) \<and> size_inv (snd (Vector_Swap v other))) \<and>
      (\<forall>r v' h'. Reserve T n (v, h) = (r, v', h') \<longrightarrow> size_inv v') \<and>
      (\<forall>r v' h'. Resize T n (v, h) = (r, v', h') \<longrightarrow> size_inv v') \<and>
      (\<forall>r v' h'. Emplace T pos args (v, h) = (r, v', h') \<longrightarrow> size_inv v') \<and>
      (\<forall>r v' h'. EmplaceBack T args (v, h) = (r, v', h') \<longrightarrow> size_inv v') \<and>
      (\<forall>r v' h'. Insert_copy T pos x (v, h) = (r, v', h') \<longrightarrow> size_inv v') \<and>
      (\<forall>r v' h'. Insert_move T pos x (v, h) = (r, v', h') \<longrightarrow> size_inv v') \<and>
      (\<forall>r v' h'. PushBack T p (v, h) = (r, v', h') \<longrightarrow> size_inv v') \<and>
      (\<forall>r v' h'. Erase T pos (v, h) = (r, v', h') \<longrightarrow> size_inv v') \<and>
      (\<forall>r v' h'. PopBack (v, h) = (r, v', h') \<longrightarrow> size_inv v'))"
proof -
  have ctor: "size_inv Vector_default"
    by (rule Vector_default_size_inv)
  have sized: "\<forall>v' h'. Vector_sized T n h = (Inr v', h') \<longrightarrow> size_inv v'"
    by (blast intro: Vector_sized_size_inv)
  have copy: "\<forall>v' h'. Vector_copy T other h = (Inr v', h') \<longrightarrow> size_inv v'"
    by (blast intro: Vector_copy_size_inv)
  have move: "size_inv other \<longrightarrow>
      size_inv (fst (Vector_move other)) \<and> size_inv (snd (Vector_move other))"
    by (blast dest: Vector_move_size_inv)
  have ops: "(\<forall>r v' h'. copy_assignment T rhs (v, h) = (r, v', h') \<longrightarrow> size_inv v') \<and>
        (size_inv other \<longrightarrow>
           size_inv (fst (move_assignment v other)) \<and>
           size_inv (snd (move_assignment v other))) \<and>
        (size_inv other \<longrightarrow>
           size_inv (fst (Vector_Swap v other)) \<and> size_inv (snd (Vector_Swap v other))) \<and>
        (\<forall>r v' h'. Reserve T n (v, h) = (r, v', h') \<longrightarrow> size_inv v') \<and>
        (\<forall>r v' h'. Resize T n (v, h) = (r, v', h') \<longrightarrow> size_inv v') \<and>
        (\<forall>r v' h'. Emplace T pos args (v, h) = (r, v', h') \<longrightarrow> size_inv v') \<and>
        (\<forall>r v' h'. EmplaceBack T args (v, h) = (r, v', h') \<longrightarrow> size_inv v') \<and>
        (\<forall>r v' h'. Insert_copy T pos x (v, h) = (r, v', h') \<longrightarrow> size_inv v') \<and>
        (\<forall>r v' h'. Insert_move T pos x (v, h) = (r, v', h') \<longrightarrow> size_inv v') \<and>
        (\<forall>r v' h'. PushBack T p (v, h) = (r, v', h') \<longrightarrow> size_inv v') \<and>
        (\<forall>r v' h'. Erase T pos (v, h) = (r, v', h') \<longrightarrow> size_inv v') \<and>
        (\<forall>r v' h'. PopBack (v, h) = (r, v', h') \<longrightarrow> size_inv v')"
    if inv: "size_inv v"
    using inv
    by (intro conjI allI impI)
      (erule (1) copy_assignment_size_inv Reserve_size_inv Resize_size_inv Emplace_size_inv
        EmplaceBack_size_inv Insert_copy_size_inv Insert_move_size_inv PushBack_size_inv
        Erase_size_inv PopBack_size_inv
        | simp add: move_assignment_def Vector_Swap_size_inv)+
  from ctor sized copy move ops show ?thesis by blast
qed

theorem size_invariant_witness:
  "size_inv vec_12 \<and>
   size_inv (fst (snd (PushBack int_type (ByCopy (Outside 3)) (vec_12, heap_12)))) \<and>
   size_inv (fst (snd (Resize int_type 7 (vec_12, heap_12)))) \<and>
   size_inv (fst (snd (Reserve int_type (2 ^ 62) (vec_12, heap_12)))) \<and>
   size_inv (fst (snd (PopBack (vec_12, heap_12))))"
proof -
  have inv: "size_inv vec_12"
    by (simp add: size_inv_def vec_12_def)
  note all = size_invariant[where T = int_type and n = 7 and v = vec_12 and h = heap_12
      and p = "ByCopy (Outside 3)" and other = vec_12 and rhs = Itself and pos = nullptr
      and args = "Built None" and x = "Outside 0"]
  note big = size_invariant[where T = int_type and n = "2 ^ 62" and v = vec_12 and h = heap_12
      and p = "ByCopy (Outside 3)" and other = vec_12 and rhs = Itself and pos = nullptr
      and args = "Built None" and x = "Outside 0"]
  from all inv have
    push: "\<forall>r v' h'. PushBack int_type (ByCopy (Outside 3)) (vec_12, heap_12) = (r, v', h') \<longrightarrow> size_inv v'"
    and resize: "\<forall>r v' h'. Resize int_type 7 (vec_12, heap_12) = (r, v', h') \<longrightarrow> size_inv v'"
    and pop: "\<forall>r v' h'. PopBack (vec_12, heap_12) = (r, v', h') \<longrightarrow> size_inv v'"
    by simp_all
  from big inv have
    reserve: "\<forall>r v' h'. Reserve int_type (2 ^ 62) (vec_12, heap_12) = (r, v', h') \<longrightarrow> size_inv v'"
    by simp
  from push have 1: "size_inv (fst (snd (PushBack int_type (ByCopy (Outside 3)) (vec_12, heap_12))))"
    by (metis prod.collapse)
  from resize have 2: "size_inv (fst (snd (Resize int_type 7 (vec_12, heap_12))))"
    by (metis prod.collapse)
  from reserve have 3: "size_inv (fst (snd (Reserve int_type (2 ^ 62) (vec_12, heap_12))))"
    by (metis prod.collapse)
  from pop have 4: "size_inv (fst (snd (PopBack (vec_12, heap_12))))"
    by (metis prod.collapse)
  from inv 1 2 3 4 show ?thesis by simp
qed

section \<open>The capacity\<close>

text \<open>
  C4: in a run of \<^verbatim>\<open>PushBack\<close>, \<^verbatim>\<open>Reserve\<close> and \<^verbatim>\<open>Resize\<close> calls on a container with
  \<^verbatim>\<open>size_ <= capacity\<close>, whatever their arguments and wherever the run ends, the
  capacity at the end is at least the capacity at the start; and a \<^verbatim>\<open>PushBack\<close> that
  returns, called on a container whose size is its capacity, leaves the capacity
  \<open>max 1 (2 * capacity)\<close>. A doubling that wraps around does not return (lemma
  \<open>Emplace_grow_room\<close>), and a call that ends in an error leaves the capacity as it was
  or larger.
\<close>

theorem capacity_never_decreases:
  assumes "size_inv v"
  shows "(\<forall>r v' h'. run_calls T cs (v, h) = (r, v', h') \<longrightarrow> Capacity v \<le> Capacity v') \<and>
         (\<forall>v' h'. Size v = Capacity v \<longrightarrow> PushBack T p (v, h) = (None, v', h') \<longrightarrow>
            Capacity v' = max 1 (2 * Capacity v))"
  using assms calls_capacity PushBack_capacity by blast

theorem capacity_never_decreases_witness:
  "size_inv vec_12 \<and> Size vec_12 = Capacity vec_12 \<and>
   fst (PushBack int_type (ByCopy (Outside 3)) (vec_12, heap_12)) = None \<and>
   Capacity (fst (snd (PushBack int_type (ByCopy (Outside 3)) (vec_12, heap_12)))) =
     max 1 (2 * Capacity vec_12) \<and>
   Capacity vec_12 \<le>
     Capacity (fst (snd (run_calls int_type
        [PushBackCall (ByCopy (Outside 3)), ReserveCall 10, ResizeCall 12,
         PushBackCall (ByMove (Outside 4))]
        (vec_12, heap_12))))"
proof -
  let ?cs = "[PushBackCall (ByCopy (Outside 3)), ReserveCall 10, ResizeCall 12,
      PushBackCall (ByMove (Outside (4::int)))]"
  let ?p = "PushBack int_type (ByCopy (Outside 3)) (vec_12, heap_12)"
  have inv: "size_inv vec_12"
    by (simp add: size_inv_def example_defs)
  have full: "Size vec_12 = Capacity vec_12"
    by (simp add: Size_def Capacity_def RawMemory_Capacity_def example_defs)
  have ok: "fst ?p = None"
    by (simp add: model_defs example_defs loop_unfolds)
  then have run: "?p = (None, fst (snd ?p), snd (snd ?p))"
    by (simp add: prod_eq_iff)
  have all: "run_calls int_type ?cs (vec_12, heap_12) =
      (fst (run_calls int_type ?cs (vec_12, heap_12)),
       fst (snd (run_calls int_type ?cs (vec_12, heap_12))),
       snd (snd (run_calls int_type ?cs (vec_12, heap_12))))"
    by (simp add: prod_eq_iff)
  note mono = capacity_never_decreases[OF inv, of int_type ?cs heap_12 "ByCopy (Outside 3)"]
  from mono full run
  have 1: "Capacity (fst (snd ?p)) = max 1 (2 * Capacity vec_12)"
    by blast
  from mono all
  have 2: "Capacity vec_12 \<le> Capacity (fst (snd (run_calls int_type ?cs (vec_12, heap_12))))"
    by blast
  from inv full ok 1 2 show ?thesis by simp
qed

section \<open>Exceptions\<close>

text \<open>
  C6: when the branch of the copy assignment that builds a copy of \<open>rhs\<close> (capacity less
  than the size of \<open>rhs\<close>) ends in an exception, and when \<^verbatim>\<open>Reserve\<close> for an element type
  that is relocated by copy ends in an exception, the container object is the one
  before the call and every block of the heap holds what it held: the size and the
  elements are unchanged.
\<close>

theorem strong_exception_safety:
  assumes "vector_ok h v"
  shows "(vector_ok h rhs \<longrightarrow> Capacity v < size_m rhs \<longrightarrow>
            copy_assignment T (Another rhs) (v, h) = (Some e, v', h') \<longrightarrow>
            v' = v \<and> Size v' = Size v \<and> elements h' v' = elements h v \<and>
            block_of h' = block_of h) \<and>
         (\<not> is_nothrow_move_constructible T \<longrightarrow> is_copy_constructible T \<longrightarrow>
            Reserve T n (v, h) = (Some e, v', h') \<longrightarrow>
            v' = v \<and> Size v' = Size v \<and> elements h' v' = elements h v \<and>
            block_of h' = block_of h)"
proof (intro conjI impI)
  assume "vector_ok h rhs" "Capacity v < size_m rhs"
    "copy_assignment T (Another rhs) (v, h) = (Some e, v', h')"
  then have "assign_by_copy T rhs (v, h) = (Some e, v', h')"
    by (simp add: copy_assignment_def)
  from assign_by_copy_strong[OF assms this]
  have same: "v' = v" "block_of h' = block_of h" by simp_all
  from same elements_cong[OF same(2), of v]
  show "v' = v" "Size v' = Size v" "elements h' v' = elements h v" "block_of h' = block_of h"
    by simp_all
next
  assume "\<not> is_nothrow_move_constructible T" "is_copy_constructible T"
    "Reserve T n (v, h) = (Some e, v', h')"
  from Reserve_strong[OF this]
  have same: "v' = v" "block_of h' = block_of h" by simp_all
  from same elements_cong[OF same(2), of v]
  show "v' = v" "Size v' = Size v" "elements h' v' = elements h v" "block_of h' = block_of h"
    by simp_all
qed

theorem strong_exception_safety_witness:
  "vector_ok heap_two vec_78 \<and> vector_ok heap_two vec_13 \<and> Capacity vec_78 < size_m vec_13 \<and>
   fst (copy_assignment throwing_type (Another vec_13) (vec_78, heap_two)) =
     Some ElementConstructionFailure \<and>
   fst (snd (copy_assignment throwing_type (Another vec_13) (vec_78, heap_two))) = vec_78 \<and>
   elements (snd (snd (copy_assignment throwing_type (Another vec_13) (vec_78, heap_two))))
     (fst (snd (copy_assignment throwing_type (Another vec_13) (vec_78, heap_two)))) =
     elements heap_two vec_78 \<and>
   \<not> is_nothrow_move_constructible throwing_type \<and> is_copy_constructible throwing_type \<and>
   fst (Reserve throwing_type 10 (vec_13, heap_two)) = Some ElementConstructionFailure \<and>
   fst (snd (Reserve throwing_type 10 (vec_13, heap_two))) = vec_13 \<and>
   elements (snd (snd (Reserve throwing_type 10 (vec_13, heap_two))))
     (fst (snd (Reserve throwing_type 10 (vec_13, heap_two)))) =
     elements heap_two vec_13"
proof -
  let ?a = "copy_assignment throwing_type (Another vec_13) (vec_78, heap_two)"
  let ?r = "Reserve throwing_type 10 (vec_13, heap_two)"
  have ok1: "vector_ok heap_two vec_78" and ok2: "vector_ok heap_two vec_13"
    by (simp_all add: vector_ok_def heap_two_def vec_78_def vec_13_def block_of_def size_max_def)
  have less: "Capacity vec_78 < size_m vec_13"
    by (simp add: Capacity_def RawMemory_Capacity_def vec_78_def vec_13_def)
  have traits: "\<not> is_nothrow_move_constructible throwing_type" "is_copy_constructible throwing_type"
    by (simp_all add: throwing_type_def)
  have fa: "fst ?a = Some ElementConstructionFailure"
    by (simp add: model_defs loop_unfolds heap_two_def vec_78_def vec_13_def)
  have fr: "fst ?r = Some ElementConstructionFailure"
    by (simp add: model_defs loop_unfolds heap_two_def vec_78_def vec_13_def)
  from fa have ea: "?a = (Some ElementConstructionFailure, fst (snd ?a), snd (snd ?a))"
    by (simp add: prod_eq_iff)
  from fr have er: "?r = (Some ElementConstructionFailure, fst (snd ?r), snd (snd ?r))"
    by (simp add: prod_eq_iff)
  from strong_exception_safety[OF ok1, of vec_13 throwing_type ElementConstructionFailure
      "fst (snd ?a)" "snd (snd ?a)"] ok2 less ea
  have 1: "fst (snd ?a) = vec_78 \<and> elements (snd (snd ?a)) (fst (snd ?a)) = elements heap_two vec_78"
    by blast
  from strong_exception_safety[OF ok2, where T = throwing_type and e = ElementConstructionFailure
      and n = 10 and v' = "fst (snd ?r)" and h' = "snd (snd ?r)"] traits er
  have 2: "fst (snd ?r) = vec_13 \<and> elements (snd (snd ?r)) (fst (snd ?r)) = elements heap_two vec_13"
    by blast
  from ok1 ok2 less traits fa fr 1 2 show ?thesis by blast
qed

section \<open>Emplace\<close>





section \<open>PushBack\<close>

lemma resetting_type_value_semantics: "value_semantics resetting_type"
  by (simp add: value_semantics_def resetting_type_def)

text \<open>
  C3: after a run of \<^verbatim>\<open>PushBack\<close> calls on an empty container the element at each index
  would be the value pushed by the call of that index. For the class \<open>resetting_type\<close>,
  which has value semantics (lemma \<open>resetting_type_value_semantics\<close>):
  \<^verbatim>\<open>v.PushBack(T(5))\<close> leaves the container \<open>[5]\<close> with capacity \<open>1\<close>, whose element
  \<^verbatim>\<open>v[0]\<close> is the object in slot \<open>0\<close> of block \<open>1\<close>; \<^verbatim>\<open>v.PushBack(v[0])\<close> then pushes
  the value \<open>5\<close> and returns, and the container holds \<open>[5, 0]\<close>. The first branch of
  \<^verbatim>\<open>Emplace\<close> has moved the old elements into the new block when it builds the new
  element from the reference, which by then refers to a moved-from object; the second
  branch builds the new element before it moves any. (For pushed objects that lie
  outside the blocks the run leaves the pushed values in their order: lemma
  \<open>push_all_on_empty\<close>.)
\<close>

theorem PushBack_of_own_element:
  "push_all resetting_type [ByMove (Outside 5)] (Vector_default, empty_heap 100) =
     (None, vec_5, heap_5) \<and>
   Vector_index vec_5 0 = Inr (1, 0) \<and> at heap_5 vec_5 0 = Inr 5 \<and>
   fst (push_all resetting_type [ByMove (Outside 5), ByCopy (Slot (1, 0))]
     (Vector_default, empty_heap 100)) = None \<and>
   Size (fst (snd (push_all resetting_type [ByMove (Outside 5), ByCopy (Slot (1, 0))]
     (Vector_default, empty_heap 100)))) = 2 \<and>
   elements
     (snd (snd (push_all resetting_type [ByMove (Outside 5), ByCopy (Slot (1, 0))]
       (Vector_default, empty_heap 100))))
     (fst (snd (push_all resetting_type [ByMove (Outside 5), ByCopy (Slot (1, 0))]
       (Vector_default, empty_heap 100)))) = [Inr 5, Inr 0] \<and>
   elements
     (snd (snd (push_all resetting_type [ByMove (Outside 5), ByCopy (Slot (1, 0))]
       (Vector_default, empty_heap 100))))
     (fst (snd (push_all resetting_type [ByMove (Outside 5), ByCopy (Slot (1, 0))]
       (Vector_default, empty_heap 100)))) \<noteq> [Inr 5, Inr 5]"
proof -
  let ?p = "push_all resetting_type [ByMove (Outside 5), ByCopy (Slot (1, 0))]
      (Vector_default, empty_heap 100)"
  have one: "push_all resetting_type [ByMove (Outside 5)] (Vector_default, empty_heap 100) =
      (None, vec_5, heap_5)"
    by (simp add: model_defs loop_unfolds vec_5_def heap_5_def)
  have ix: "Vector_index vec_5 0 = Inr (1, 0)" "at heap_5 vec_5 0 = Inr 5"
    by (simp_all add: model_defs vec_5_def heap_5_def)
  have r: "fst ?p = None"
    by (simp add: model_defs loop_unfolds)
  have sz: "Size (fst (snd ?p)) = 2"
    by (simp add: model_defs loop_unfolds)
  have el: "elements (snd (snd ?p)) (fst (snd ?p)) = [Inr 5, Inr 0]"
    by (simp add: model_defs loop_unfolds upt_rec)
  from one ix r sz el show ?thesis by simp
qed

section \<open>Erase\<close>

text \<open>
  C7: \<^verbatim>\<open>Erase\<close> would shift the later elements by copy for a type that is copy
  constructible and whose move constructor may throw. For such a type the compiler
  instantiates the second branch of the \<^verbatim>\<open>if constexpr\<close>, and the call
  \<^verbatim>\<open>std::distance(pos + 1, end())\<close> in it has no template argument that fits a
  \<^verbatim>\<open>const_iterator\<close> and an \<^verbatim>\<open>iterator\<close>: \<^verbatim>\<open>Erase\<close> does not compile for the class
  \<open>throwing_type\<close>, and the element at index \<open>1\<close> of \<open>[1, 2, 3]\<close> is not removed. The
  first branch, compiled for \<^verbatim>\<open>int\<close>, removes it (and for every type of that branch
  with value semantics \<^verbatim>\<open>Erase\<close> does what the claim says, by move assignment: lemma
  \<open>Erase_by_move_removes_one_element\<close>).
\<close>

theorem Erase_by_copy_does_not_compile:
  "\<not> is_nothrow_move_constructible throwing_type \<and> is_copy_constructible throwing_type \<and>
   deduce_InputIt ConstIterator Iterator = None \<and> \<not> Erase_compiles throwing_type \<and>
   Erase throwing_type (ptr_add (begin_it vec_123) 1) (vec_123, heap_123) =
     (Inl IllFormed, vec_123, heap_123) \<and>
   elements heap_123 vec_123 = [Inr 1, Inr 2, Inr 3] \<and>
   fst (Erase int_type (ptr_add (begin_it vec_123) 1) (vec_123, heap_123)) = Inr (1, 1) \<and>
   elements (snd (snd (Erase int_type (ptr_add (begin_it vec_123) 1) (vec_123, heap_123))))
     (fst (snd (Erase int_type (ptr_add (begin_it vec_123) 1) (vec_123, heap_123)))) =
     [Inr 1, Inr 3]"
proof -
  have traits: "\<not> is_nothrow_move_constructible throwing_type"
    "is_copy_constructible throwing_type"
    by (simp_all add: throwing_type_def)
  have ded: "deduce_InputIt ConstIterator Iterator = None"
    by (simp add: deduce_InputIt_def)
  with traits have nc: "\<not> Erase_compiles throwing_type"
    by (simp add: Erase_compiles_def)
  then have ill: "Erase throwing_type (ptr_add (begin_it vec_123) 1) (vec_123, heap_123) =
      (Inl IllFormed, vec_123, heap_123)"
    by (simp add: Erase_def)
  have old: "elements heap_123 vec_123 = [Inr 1, Inr 2, Inr 3]"
    by (simp add: model_defs example_defs upt_rec)
  have r: "fst (Erase int_type (ptr_add (begin_it vec_123) 1) (vec_123, heap_123)) = Inr (1, 1)"
    by (simp add: model_defs loop_unfolds example_defs)
  have new: "elements
      (snd (snd (Erase int_type (ptr_add (begin_it vec_123) 1) (vec_123, heap_123))))
      (fst (snd (Erase int_type (ptr_add (begin_it vec_123) 1) (vec_123, heap_123)))) =
      [Inr 1, Inr 3]"
    by (simp add: model_defs loop_unfolds example_defs upt_rec)
  from traits ded nc ill old r new show ?thesis by simp
qed

end
